theory Spec2Isabelle
  imports Main "HOL-Library.Word"
begin

section \<open>The CDB length of the virtio-scsi test (tests/virtio-scsi-test.c)\<close>

text \<open>
  \<^verbatim>\<open>int scsi_cdb_length(uint8_t *buf)\<close> switches on \<^verbatim>\<open>buf[0] >> 5\<close>.
  The pointer carries no length, so the buffer is the bytes reachable through it:
  \<open>buf i\<close> is \<^verbatim>\<open>buf[i]\<close>. The byte is promoted to \<^verbatim>\<open>int\<close> before the shift, as C
  does. \<^verbatim>\<open>VIRTIO_SCSI_CDB_SIZE\<close> comes from a header that is not part of the sources at
  hand and is a parameter.
\<close>

definition scsi_cdb_length :: "int \<Rightarrow> (nat \<Rightarrow> 8 word) \<Rightarrow> int" where
  "scsi_cdb_length VIRTIO_SCSI_CDB_SIZE buf =
     (let sw = drop_bit 5 (uint (buf 0)) in
      if sw = 0 then 6
      else if sw = 1 \<or> sw = 2 then 10
      else if sw = 4 then 16
      else if sw = 5 then 12
      else VIRTIO_SCSI_CDB_SIZE)"

section \<open>AIO_WAIT_WHILE (include/block/aio-wait.h)\<close>

subsection \<open>The wait object and the collaborators\<close>

text \<open>
  \<^verbatim>\<open>AioWait\<close> has the counter \<^verbatim>\<open>unsigned num_waiters\<close>, a 32-bit word that wraps, and the
  \<^verbatim>\<open>CoQueue wait_queue\<close>, the coroutines parked on the object in the order they arrived.
  An \<^verbatim>\<open>AioContext *\<close> is an address, and \<open>None\<close> is \<^verbatim>\<open>NULL\<close>.
\<close>

type_synonym AioContext = nat
type_synonym Coroutine = nat
type_synonym CoQueue = "Coroutine list"

record AioWait =
  num_waiters :: "32 word"
  wait_queue :: CoQueue

text \<open>
  The macro calls functions that the header only includes. They are parameters of the
  model, acting on a state \<open>'w\<close> that holds everything outside the wait object: the event
  loops, the locks, the data the condition reads. \<^verbatim>\<open>qemu_get_aio_context()\<close> returns the
  context of the main loop, which is fixed at start-up, and is a constant here.
  \<^verbatim>\<open>qemu_co_queue_wait\<close> receives \<^verbatim>\<open>&wait_->wait_queue\<close>, so it is given the queue and
  returns it.
\<close>

record 'w collaborators =
  qemu_in_coroutine :: "'w \<Rightarrow> bool"
  in_aio_context_home_thread :: "AioContext \<Rightarrow> 'w \<Rightarrow> bool"
  qemu_get_current_aio_context :: "'w \<Rightarrow> AioContext"
  qemu_get_aio_context :: AioContext
  qemu_co_queue_wait :: "CoQueue \<Rightarrow> 'w \<Rightarrow> CoQueue \<times> 'w"
  aio_poll :: "AioContext \<Rightarrow> bool \<Rightarrow> 'w \<Rightarrow> 'w"
  aio_context_release :: "AioContext \<Rightarrow> 'w \<Rightarrow> 'w"
  aio_context_acquire :: "AioContext \<Rightarrow> 'w \<Rightarrow> 'w"

subsection \<open>The state of one call and its trace\<close>

text \<open>
  The model follows one caller through the macro. Each step the macro takes is recorded, in
  program order, in a trace: the assertion with its outcome, the two atomic operations on
  \<open>num_waiters\<close>, every evaluation of the condition with its value, and every call that
  waits or touches a context. What other threads do in between is part of what the
  collaborators do to \<open>'w\<close>. The wait object in the state is the caller's view of it:
  \<open>num_waiters\<close> changes by the caller's own two operations only, so that its value is the
  initial value plus the caller's contribution, and \<open>wait_queue\<close> changes only in
  \<^verbatim>\<open>qemu_co_queue_wait\<close>, which is handed the queue.
\<close>

datatype event =
    Assert bool
  | AtomicInc
  | AtomicDec
  | Cond bool
  | CoQueueWait
  | AioPoll AioContext bool
  | ContextRelease AioContext
  | ContextAcquire AioContext

record 'w machine =
  wait_obj :: AioWait
  world :: 'w
  trace :: "event list"

text \<open>
  A call returns the value of \<^verbatim>\<open>waited_\<close>, or aborts at the assertion, or is still in its
  loop when the observation ends. The loops of the macro need not terminate, so they take
  the number of condition evaluations to follow, and \<open>Waiting\<close> is the state at the loop
  head when that number is used up.
\<close>

datatype 'w outcome =
    Returned bool "'w machine"
  | Aborted "'w machine"
  | Waiting "'w machine"

fun machine_of :: "'w outcome \<Rightarrow> 'w machine" where
  "machine_of (Returned waited s) = s"
| "machine_of (Aborted s) = s"
| "machine_of (Waiting s) = s"

text \<open>The events a call added to the trace it started with.\<close>

definition emitted :: "'w machine \<Rightarrow> 'w outcome \<Rightarrow> event list" where
  "emitted s out = drop (length (trace s)) (trace (machine_of out))"

text \<open>An outcome with another wait object in place, to compare runs from different ones.\<close>

fun put_wait_obj :: "AioWait \<Rightarrow> 'w outcome \<Rightarrow> 'w outcome" where
  "put_wait_obj x (Returned waited s) = Returned waited (s\<lparr>wait_obj := x\<rparr>)"
| "put_wait_obj x (Aborted s) = Aborted (s\<lparr>wait_obj := x\<rparr>)"
| "put_wait_obj x (Waiting s) = Waiting (s\<lparr>wait_obj := x\<rparr>)"

subsection \<open>The steps of the macro\<close>

definition log :: "event \<Rightarrow> 'w machine \<Rightarrow> 'w machine" where
  "log e s = s\<lparr>trace := trace s @ [e]\<rparr>"

text \<open>\<^verbatim>\<open>atomic_inc(&wait_->num_waiters)\<close> and \<^verbatim>\<open>atomic_dec(&wait_->num_waiters)\<close>.\<close>

definition atomic_inc :: "'w machine \<Rightarrow> 'w machine" where
  "atomic_inc s =
     log AtomicInc (s\<lparr>wait_obj := (wait_obj s)\<lparr>num_waiters := num_waiters (wait_obj s) + 1\<rparr>\<rparr>)"

definition atomic_dec :: "'w machine \<Rightarrow> 'w machine" where
  "atomic_dec s =
     log AtomicDec (s\<lparr>wait_obj := (wait_obj s)\<lparr>num_waiters := num_waiters (wait_obj s) - 1\<rparr>\<rparr>)"

text \<open>\<^verbatim>\<open>qemu_co_queue_wait(&wait_->wait_queue, NULL)\<close>.\<close>

definition co_queue_wait :: "'w collaborators \<Rightarrow> 'w machine \<Rightarrow> 'w machine" where
  "co_queue_wait env s =
     (case qemu_co_queue_wait env (wait_queue (wait_obj s)) (world s) of
        (q, w) \<Rightarrow> log CoQueueWait (s\<lparr>wait_obj := (wait_obj s)\<lparr>wait_queue := q\<rparr>, world := w\<rparr>))"

definition poll :: "'w collaborators \<Rightarrow> AioContext \<Rightarrow> bool \<Rightarrow> 'w machine \<Rightarrow> 'w machine" where
  "poll env c blocking s =
     log (AioPoll c blocking) (s\<lparr>world := aio_poll env c blocking (world s)\<rparr>)"

definition context_release :: "'w collaborators \<Rightarrow> AioContext \<Rightarrow> 'w machine \<Rightarrow> 'w machine" where
  "context_release env c s =
     log (ContextRelease c) (s\<lparr>world := aio_context_release env c (world s)\<rparr>)"

definition context_acquire :: "'w collaborators \<Rightarrow> AioContext \<Rightarrow> 'w machine \<Rightarrow> 'w machine" where
  "context_acquire env c s =
     log (ContextAcquire c) (s\<lparr>world := aio_context_acquire env c (world s)\<rparr>)"

text \<open>
  The macro argument \<^verbatim>\<open>cond\<close> is an expression of the caller, evaluated afresh at each
  test: it reads the state outside the wait object and may change it.
\<close>

definition eval_cond :: "('w \<Rightarrow> bool \<times> 'w) \<Rightarrow> 'w machine \<Rightarrow> bool \<times> 'w machine" where
  "eval_cond cond s = (case cond (world s) of (b, w) \<Rightarrow> (b, log (Cond b) (s\<lparr>world := w\<rparr>)))"

subsection \<open>The three branches and the macro\<close>

text \<open>
  The branch taken in a coroutine:
  \<^verbatim>\<open>while ((cond)) { atomic_inc(..); qemu_co_queue_wait(..); atomic_dec(..); }\<close>
\<close>

fun coroutine_path ::
  "'w collaborators \<Rightarrow> ('w \<Rightarrow> bool \<times> 'w) \<Rightarrow> nat \<Rightarrow> bool \<Rightarrow> 'w machine \<Rightarrow> 'w outcome" where
  "coroutine_path env cond 0 waited s = Waiting s"
| "coroutine_path env cond (Suc n) waited s =
     (case eval_cond cond s of
        (True, s1) \<Rightarrow>
          coroutine_path env cond n waited (atomic_dec (co_queue_wait env (atomic_inc s1)))
      | (False, s1) \<Rightarrow> Returned waited s1)"

text \<open>
  The branch taken in the home thread of \<^verbatim>\<open>ctx_\<close>:
  \<^verbatim>\<open>while ((cond)) { aio_poll(ctx_, true); waited_ = true; }\<close>
\<close>

fun home_thread_path ::
  "'w collaborators \<Rightarrow> ('w \<Rightarrow> bool \<times> 'w) \<Rightarrow> AioContext \<Rightarrow> nat \<Rightarrow> bool \<Rightarrow> 'w machine \<Rightarrow>
   'w outcome" where
  "home_thread_path env cond c 0 waited s = Waiting s"
| "home_thread_path env cond c (Suc n) waited s =
     (case eval_cond cond s of
        (True, s1) \<Rightarrow> home_thread_path env cond c n True (poll env c True s1)
      | (False, s1) \<Rightarrow> Returned waited s1)"

text \<open>
  The last branch. The body of its loop is
  \<^verbatim>\<open>if (ctx_) aio_context_release(ctx_); aio_poll(qemu_get_aio_context(), true);\<close>
  \<^verbatim>\<open>if (ctx_) aio_context_acquire(ctx_); waited_ = true;\<close>
\<close>

definition foreign_iteration ::
  "'w collaborators \<Rightarrow> AioContext option \<Rightarrow> 'w machine \<Rightarrow> 'w machine" where
  "foreign_iteration env ctx s =
     (let s1 = (case ctx of Some c \<Rightarrow> context_release env c s | None \<Rightarrow> s);
          s2 = poll env (qemu_get_aio_context env) True s1
      in (case ctx of Some c \<Rightarrow> context_acquire env c s2 | None \<Rightarrow> s2))"

fun foreign_wait_loop ::
  "'w collaborators \<Rightarrow> ('w \<Rightarrow> bool \<times> 'w) \<Rightarrow> AioContext option \<Rightarrow> nat \<Rightarrow> bool \<Rightarrow> 'w machine \<Rightarrow>
   'w outcome" where
  "foreign_wait_loop env cond ctx 0 waited s = Waiting s"
| "foreign_wait_loop env cond ctx (Suc n) waited s =
     (case eval_cond cond s of
        (True, s1) \<Rightarrow> foreign_wait_loop env cond ctx n True (foreign_iteration env ctx s1)
      | (False, s1) \<Rightarrow> Returned waited s1)"

text \<open>
  The branch asserts \<^verbatim>\<open>qemu_get_current_aio_context() == qemu_get_aio_context()\<close>, increments,
  runs the loop and decrements. A failed \<^verbatim>\<open>assert\<close> aborts the process.
\<close>

definition foreign_thread_path ::
  "'w collaborators \<Rightarrow> ('w \<Rightarrow> bool \<times> 'w) \<Rightarrow> AioContext option \<Rightarrow> nat \<Rightarrow> bool \<Rightarrow> 'w machine \<Rightarrow>
   'w outcome" where
  "foreign_thread_path env cond ctx n waited s =
     (if qemu_get_current_aio_context env (world s) = qemu_get_aio_context env
      then (case foreign_wait_loop env cond ctx n waited (atomic_inc (log (Assert True) s)) of
              Returned waited' s' \<Rightarrow> Returned waited' (atomic_dec s')
            | Aborted s' \<Rightarrow> Aborted s'
            | Waiting s' \<Rightarrow> Waiting s')
      else Aborted (log (Assert False) s))"

text \<open>
  The macro: \<^verbatim>\<open>waited_ = false\<close>, then the chain
  \<^verbatim>\<open>if (qemu_in_coroutine()) .. else if (ctx_ && in_aio_context_home_thread(ctx_)) .. else ..\<close>,
  where \<^verbatim>\<open>&&\<close> does not call \<^verbatim>\<open>in_aio_context_home_thread\<close> on \<^verbatim>\<open>NULL\<close>. The wait object
  \<^verbatim>\<open>wait_\<close> points to is the one in the state.
\<close>

definition AIO_WAIT_WHILE ::
  "'w collaborators \<Rightarrow> nat \<Rightarrow> AioContext option \<Rightarrow> ('w \<Rightarrow> bool \<times> 'w) \<Rightarrow> 'w machine \<Rightarrow>
   'w outcome" where
  "AIO_WAIT_WHILE env n ctx cond s =
     (let waited = False in
      if qemu_in_coroutine env (world s) then coroutine_path env cond n waited s
      else if (case ctx of None \<Rightarrow> False | Some c \<Rightarrow> in_aio_context_home_thread env c (world s))
      then home_thread_path env cond (the ctx) n waited s
      else foreign_thread_path env cond ctx n waited s)"

subsection \<open>Traces of whole loops\<close>


definition foreign_block :: "AioContext \<Rightarrow> AioContext option \<Rightarrow> event list" where
  "foreign_block g ctx =
     (case ctx of
        None \<Rightarrow> [AioPoll g True]
      | Some c \<Rightarrow> [ContextRelease c, AioPoll g True, ContextAcquire c])"

fun rounds :: "event list \<Rightarrow> nat \<Rightarrow> event list" where
  "rounds blk 0 = []"
| "rounds blk (Suc k) = Cond True # blk @ rounds blk k"

subsection \<open>A small system to run the macro on\<close>

text \<open>
  The state outside the wait object is the number of events still outstanding. The
  condition holds while there are any, and each poll and each suspension of a coroutine
  sees one of them complete. The main loop context is 0; \<open>cur\<close> is the context of the
  calling thread, which is the home thread of \<open>cur\<close> and of nothing else.
\<close>

definition demo_env :: "bool \<Rightarrow> AioContext \<Rightarrow> nat collaborators" where
  "demo_env co cur =
     \<lparr>qemu_in_coroutine = (\<lambda>w. co),
      in_aio_context_home_thread = (\<lambda>c w. c = cur),
      qemu_get_current_aio_context = (\<lambda>w. cur),
      qemu_get_aio_context = 0,
      qemu_co_queue_wait = (\<lambda>q w. (q, w - 1)),
      aio_poll = (\<lambda>c blocking w. w - 1),
      aio_context_release = (\<lambda>c w. w),
      aio_context_acquire = (\<lambda>c w. w)\<rparr>"

definition busy :: "nat \<Rightarrow> bool \<times> nat" where
  "busy w = (0 < w, w)"

definition demo_machine :: "nat \<Rightarrow> nat machine" where
  "demo_machine w = \<lparr>wait_obj = \<lparr>num_waiters = 0, wait_queue = []\<rparr>, world = w, trace = []\<rparr>"

text \<open>
  A second system, in which the state outside the wait object is the journal the
  collaborators keep of the calls made to them: a release, a poll, an acquire and a
  suspension each append their own entry, so the journal shows which were called and in
  which order. The condition appends the value it returns and holds while the journal has
  fewer than seven entries.
\<close>

definition journal_env :: "AioContext \<Rightarrow> (event list) collaborators" where
  "journal_env cur =
     \<lparr>qemu_in_coroutine = (\<lambda>w. False),
      in_aio_context_home_thread = (\<lambda>c w. c = cur),
      qemu_get_current_aio_context = (\<lambda>w. cur),
      qemu_get_aio_context = 0,
      qemu_co_queue_wait = (\<lambda>q w. (q, w @ [CoQueueWait])),
      aio_poll = (\<lambda>c blocking w. w @ [AioPoll c blocking]),
      aio_context_release = (\<lambda>c w. w @ [ContextRelease c]),
      aio_context_acquire = (\<lambda>c w. w @ [ContextAcquire c])\<rparr>"

definition unfinished :: "event list \<Rightarrow> bool \<times> event list" where
  "unfinished w = (length w < 7, w @ [Cond (length w < 7)])"

definition journal_machine :: "(event list) machine" where
  "journal_machine = \<lparr>wait_obj = \<lparr>num_waiters = 0, wait_queue = []\<rparr>, world = [], trace = []\<rparr>"

section \<open>aio_wait_kick and the coroutines parked on a wait object\<close>

text \<open>
  Several coroutines wait on one \<^verbatim>\<open>AioWait\<close>, each in its own \<^verbatim>\<open>AIO_WAIT_WHILE\<close> with its own
  condition. Seen from the scheduler, the state is the wait object, the coroutines that
  were made runnable and have not run yet, the coroutines that have left their loop, the
  evaluations of conditions made so far (which coroutine, which value), whether the main
  loop was told to return from a blocking poll, and the data the conditions read.
\<close>

record 'w tasks =
  coordinator :: AioWait
  resumed :: "Coroutine list"
  finished :: "Coroutine list"
  probes :: "(Coroutine \<times> bool) list"
  main_loop_kicked :: bool
  shared :: 'w

text \<open>
  Modelled from the spec: \<^verbatim>\<open>qemu_co_queue_wait\<close> is a function of the coroutine runtime, which
  is not part of the sources at hand. The spec gives it as "suspend the current task onto
  \<open>wait_list\<close>", an ordered list resumed first-in first-out.
\<close>

definition co_suspend :: "Coroutine \<Rightarrow> 'w tasks \<Rightarrow> 'w tasks" where
  "co_suspend t st =
     st\<lparr>coordinator := (coordinator st)\<lparr>wait_queue := wait_queue (coordinator st) @ [t]\<rparr>\<rparr>"

text \<open>
  The coroutine branch of \<^verbatim>\<open>AIO_WAIT_WHILE\<close> from the point where \<^verbatim>\<open>qemu_co_queue_wait\<close>
  returns in coroutine \<open>t\<close>: \<^verbatim>\<open>atomic_dec\<close>, then the loop test, and when the condition still
  holds \<^verbatim>\<open>atomic_inc\<close> and \<^verbatim>\<open>qemu_co_queue_wait\<close> again; otherwise the loop is left.
\<close>

definition co_continue :: "(Coroutine \<Rightarrow> 'w \<Rightarrow> bool) \<Rightarrow> Coroutine \<Rightarrow> 'w tasks \<Rightarrow> 'w tasks" where
  "co_continue cond_of t st =
     (let st1 = st\<lparr>coordinator :=
                   (coordinator st)\<lparr>num_waiters := num_waiters (coordinator st) - 1\<rparr>\<rparr>;
          b = cond_of t (shared st1);
          st2 = st1\<lparr>probes := probes st1 @ [(t, b)]\<rparr>
      in if b
         then co_suspend t
                (st2\<lparr>coordinator :=
                   (coordinator st2)\<lparr>num_waiters := num_waiters (coordinator st2) + 1\<rparr>\<rparr>)
         else st2\<lparr>finished := finished st2 @ [t]\<rparr>)"

text \<open>One scheduling pass: the runnable coroutines run, in order, up to their next suspension.\<close>

definition schedule_pass :: "(Coroutine \<Rightarrow> 'w \<Rightarrow> bool) \<Rightarrow> 'w tasks \<Rightarrow> 'w tasks" where
  "schedule_pass cond_of st = fold (co_continue cond_of) (resumed st) (st\<lparr>resumed := []\<rparr>)"

text \<open>
  Modelled from the spec: \<^verbatim>\<open>aio_wait_kick\<close> is only declared in the header; its body
  (util/aio-wait.c) is not part of the sources at hand. The spec gives its effects: "resume
  every cooperative task currently on \<open>wait_list\<close> (broadcast, not single-wakeup)" and
  "unblock any blocking iteration of the globally shared loop", and lets an implementation
  "use the atomic count as a fast-path filter", doing nothing when the count is zero.
  \<open>fast_path\<close> says whether the filter is used.
\<close>

definition aio_wait_kick :: "bool \<Rightarrow> 'w tasks \<Rightarrow> 'w tasks" where
  "aio_wait_kick fast_path st =
     (if fast_path \<and> num_waiters (coordinator st) = 0 then st
      else st\<lparr>coordinator := (coordinator st)\<lparr>wait_queue := []\<rparr>,
              resumed := resumed st @ wait_queue (coordinator st),
              main_loop_kicked := True\<rparr>)"

text \<open>
  Invariant I2 of the spec: the counter is at least the number of coroutines suspended on
  the wait list. A coroutine that was resumed and has not run yet has not decremented yet,
  so it is still counted.
\<close>

definition waiters_cover :: "'w tasks \<Rightarrow> bool" where
  "waiters_cover st =
     (length (wait_queue (coordinator st)) + length (resumed st)
        \<le> unat (num_waiters (coordinator st)))"

text \<open>
  Three coroutines parked on one wait object; the condition of coroutine 2 still holds, the
  conditions of 1 and 3 do not.
\<close>

definition three_parked :: "unit tasks" where
  "three_parked =
     \<lparr>coordinator = \<lparr>num_waiters = 3, wait_queue = [1, 2, 3]\<rparr>,
      resumed = [], finished = [], probes = [], main_loop_kicked = False, shared = ()\<rparr>"

section \<open>aio_wait_bh_oneshot\<close>

text \<open>
  \<^verbatim>\<open>aio_wait_bh_oneshot\<close> is only declared in the header. Its caller is the main loop
  thread, whose context is the global one, here \<open>main_ctx\<close>; the other contexts belong to
  IOThreads that run on their own.
\<close>

definition main_ctx :: AioContext where
  "main_ctx = 0"

text \<open>
  A deferred callback is the wrapper that \<^verbatim>\<open>aio_wait_bh_oneshot\<close> schedules, carrying the
  user callback it will invoke, or some other deferred work of no concern here.
\<close>

datatype bh = WaitBH nat | OtherBH nat

text \<open>
  The state outside the wait object: the deferred callbacks scheduled on each context,
  oldest first; the flag \<open>done\<close> of the request in flight, here \<open>done_flag\<close>; the user callbacks run so far,
  each with the context whose thread ran it; the number of kicks; how often the main loop
  thread holds each context; and the number of blocking polls the main loop thread has made.
\<close>

record loops =
  bh_list :: "AioContext \<Rightarrow> bh list"
  done_flag :: bool
  executed :: "(AioContext \<times> nat) list"
  kicks :: nat
  held :: "AioContext \<Rightarrow> nat"
  polls :: nat

text \<open>
  Modelled from the spec: the wrapper callback of \<^verbatim>\<open>aio_wait_bh_oneshot\<close>, whose body is not
  part of the sources at hand. The spec gives it as a callback "that invokes \<open>callback\<close>,
  sets \<open>done = true\<close>, and calls \<open>kick\<close>". It runs on the thread of context \<open>c\<close>.
\<close>

fun run_bh :: "AioContext \<Rightarrow> bh \<Rightarrow> loops \<Rightarrow> loops" where
  "run_bh c (WaitBH cb) w =
     w\<lparr>executed := executed w @ [(c, cb)], done_flag := True, kicks := Suc (kicks w)\<rparr>"
| "run_bh c (OtherBH k) w = w"

text \<open>
  Modelled from the spec: scheduling a one-shot callback on an event loop, which belongs to
  the event loop implementation and is not part of the sources at hand. The spec gives a
  deferred callback as "a unit of work scheduled to run on a specific context's own
  execution stream at a future loop iteration, regardless of which thread scheduled it".
\<close>

definition aio_bh_schedule_oneshot :: "AioContext \<Rightarrow> bh \<Rightarrow> loops \<Rightarrow> loops" where
  "aio_bh_schedule_oneshot c b w = w\<lparr>bh_list := (bh_list w)(c := bh_list w c @ [b])\<rparr>"

text \<open>
  Modelled from the spec: one iteration of the event loop of context \<open>c\<close>, run by the
  thread of \<open>c\<close>, which is not part of the sources at hand. It runs the "queued deferred
  callbacks" of the context, oldest first, and leaves the list empty.
\<close>

definition run_iteration :: "AioContext \<Rightarrow> loops \<Rightarrow> loops" where
  "run_iteration c w = fold (run_bh c) (bh_list w c) (w\<lparr>bh_list := (bh_list w)(c := [])\<rparr>)"

text \<open>
  Modelled from the spec: one turn of the IOThread of context \<open>c\<close>, which is not part of
  the sources at hand. An IOThread runs the callbacks of its context only while the main
  loop thread does not hold the context: the spec has the waiter "release the held token
  (if any) so the owning thread can make progress". The main loop has no IOThread.
\<close>

definition io_step :: "AioContext \<Rightarrow> loops \<Rightarrow> loops" where
  "io_step c w = (if c \<noteq> main_ctx \<and> held w c = 0 then run_iteration c w else w)"

text \<open>
  Modelled from the spec: the progress of the IOThreads while the main loop thread blocks
  in a poll, which is not part of the sources at hand. The threads run concurrently;
  \<open>sched i\<close> lists the contexts whose threads get a turn during the \<open>i\<close>-th blocking poll,
  in the order they do, and ranges over all schedules.
\<close>

definition others_run :: "(nat \<Rightarrow> AioContext list) \<Rightarrow> loops \<Rightarrow> loops" where
  "others_run sched w = fold io_step (sched (polls w)) w"

text \<open>
  Modelled from the spec: the collaborators of \<^verbatim>\<open>AIO_WAIT_WHILE\<close> as the main loop thread,
  outside a coroutine, meets them. It is the home thread of the global context only. A
  blocking poll lets the IOThreads run and then runs the iteration of the polled context.
  Releasing and acquiring a context count how often the thread holds it.
\<close>

definition oneshot_env :: "(nat \<Rightarrow> AioContext list) \<Rightarrow> loops collaborators" where
  "oneshot_env sched =
     \<lparr>qemu_in_coroutine = (\<lambda>w. False),
      in_aio_context_home_thread = (\<lambda>c w. c = main_ctx),
      qemu_get_current_aio_context = (\<lambda>w. main_ctx),
      qemu_get_aio_context = main_ctx,
      qemu_co_queue_wait = (\<lambda>q w. (q, w)),
      aio_poll = (\<lambda>c blocking w. run_iteration c ((others_run sched w)\<lparr>polls := Suc (polls w)\<rparr>)),
      aio_context_release = (\<lambda>c w. w\<lparr>held := (held w)(c := held w c - 1)\<rparr>),
      aio_context_acquire = (\<lambda>c w. w\<lparr>held := (held w)(c := Suc (held w c))\<rparr>)\<rparr>"

text \<open>
  Modelled from the spec: the condition \<^verbatim>\<open>aio_wait_bh_oneshot\<close> waits on, which the spec
  gives as \<open>() => !done\<close>. It reads the flag and changes nothing.
\<close>

definition not_done :: "loops \<Rightarrow> bool \<times> loops" where
  "not_done w = (\<not> done_flag w, w)"

text \<open>
  Modelled from the spec: \<^verbatim>\<open>aio_wait_bh_oneshot(ctx, cb, opaque)\<close>, whose body (util/aio-wait.c)
  is not part of the sources at hand. The spec: it "allocates a request with \<open>done = false\<close>;
  schedules a wrapper callback onto \<open>target_context\<close> ...; then calls
  \<open>wait_while(coordinator, target_context, () => !done)\<close>". The wait is the macro of the
  header, embedded above.
\<close>

definition aio_wait_bh_oneshot ::
  "(nat \<Rightarrow> AioContext list) \<Rightarrow> nat \<Rightarrow> AioContext \<Rightarrow> nat \<Rightarrow> loops machine \<Rightarrow> loops outcome" where
  "aio_wait_bh_oneshot sched n ctx cb s =
     (let w = aio_bh_schedule_oneshot ctx (WaitBH cb) ((world s)\<lparr>done_flag := False\<rparr>)
      in AIO_WAIT_WHILE (oneshot_env sched) n (Some ctx) not_done (s\<lparr>world := w\<rparr>))"

text \<open>Calls made back to back: the next call starts when the one before has returned.\<close>

fun oneshot_calls ::
  "(nat \<Rightarrow> AioContext list) \<Rightarrow> nat \<Rightarrow> AioContext \<Rightarrow> nat list \<Rightarrow> loops machine \<Rightarrow> loops outcome" where
  "oneshot_calls sched n ctx [] s = Returned False s"
| "oneshot_calls sched n ctx (cb # cbs) s =
     (case aio_wait_bh_oneshot sched n ctx cb s of
        Returned waited s' \<Rightarrow> oneshot_calls sched n ctx cbs s'
      | Aborted s' \<Rightarrow> Aborted s'
      | Waiting s' \<Rightarrow> Waiting s')"

text \<open>
  The user callbacks of the wrappers in a list of deferred callbacks. No wrapper is pending
  on any context in the state between two calls of \<^verbatim>\<open>aio_wait_bh_oneshot\<close>, which returns
  only when its wrapper has run. During a call, the wrapper of the call is pending on
  \<open>ctx\<close> and \<open>done\<close> is false, or the wrapper has run on \<open>ctx\<close>, it is pending nowhere and
  \<open>done\<close> is true; \<open>E\<close> is the list of callbacks run before the call.
\<close>

fun wait_cbs :: "bh list \<Rightarrow> nat list" where
  "wait_cbs [] = []"
| "wait_cbs (WaitBH cb # bs) = cb # wait_cbs bs"
| "wait_cbs (OtherBH k # bs) = wait_cbs bs"

definition no_wait_bh :: "loops \<Rightarrow> bool" where
  "no_wait_bh w = (\<forall>c. wait_cbs (bh_list w c) = [])"

definition wrapper_pending :: "AioContext \<Rightarrow> nat \<Rightarrow> (AioContext \<times> nat) list \<Rightarrow> loops \<Rightarrow> bool" where
  "wrapper_pending ctx cb E w =
     (\<not> done_flag w \<and> executed w = E \<and> wait_cbs (bh_list w ctx) = [cb] \<and>
      (\<forall>c. c \<noteq> ctx \<longrightarrow> wait_cbs (bh_list w c) = []))"

definition wrapper_ran :: "AioContext \<Rightarrow> nat \<Rightarrow> (AioContext \<times> nat) list \<Rightarrow> loops \<Rightarrow> bool" where
  "wrapper_ran ctx cb E w =
     (done_flag w \<and> executed w = E @ [(ctx, cb)] \<and> no_wait_bh w)"

text \<open>
  A system at rest, with other deferred work pending on the contexts 0 and 4 and the main
  loop thread holding context 4 once, and a schedule: the thread of context 5 runs in every
  poll, the thread of context 4 only in every third poll.
\<close>

definition idle_loops :: loops where
  "idle_loops =
     \<lparr>bh_list = (\<lambda>c. if c = 0 then [OtherBH 1] else if c = 4 then [OtherBH 2, OtherBH 3] else []),
      done_flag = False, executed = [], kicks = 0,
      held = (\<lambda>c. if c = 4 then 1 else 0), polls = 0\<rparr>"

definition idle_machine :: "loops machine" where
  "idle_machine = \<lparr>wait_obj = \<lparr>num_waiters = 0, wait_queue = []\<rparr>, world = idle_loops, trace = []\<rparr>"

definition every_third_poll :: "nat \<Rightarrow> AioContext list" where
  "every_third_poll i = (if i mod 3 = 2 then [5, 4] else [5])"

section \<open>Properties of the CDB length\<close>

lemma group_code_below_8: "uint (drop_bit 5 (b :: 8 word)) < 8"
proof -
  have "uint b < 2 ^ 8"
    using uint_bounded [of b] by simp
  then have "uint b div 2 ^ 5 < 8"
    by simp
  moreover have "uint (drop_bit 5 b) = uint b div 2 ^ 5"
    by (simp add: uint_div drop_bit_eq_div)
  ultimately show ?thesis
    by simp
qed

lemma group_code_cases:
  "drop_bit 5 (b :: 8 word) \<in> {0, 1, 2, 3, 4, 5, 6, 7}"
proof -
  let ?g = "uint (drop_bit 5 b)"
  have "0 \<le> ?g"
    by simp
  moreover have "?g < 8"
    by (rule group_code_below_8)
  ultimately have "?g = 0 \<or> ?g = 1 \<or> ?g = 2 \<or> ?g = 3 \<or> ?g = 4 \<or> ?g = 5 \<or> ?g = 6 \<or> ?g = 7"
    by arith
  then have "word_of_int ?g \<in> {0 :: 8 word, 1, 2, 3, 4, 5, 6, 7}"
    by (elim disjE) (simp_all only: insert_iff word_of_int_0 word_of_int_1 word_of_int_numeral simp_thms)
  then show ?thesis
    by (simp only: word_of_int_uint)
qed

lemma group_code_promoted: "drop_bit 5 (uint (b :: 8 word)) = uint (drop_bit 5 b)"
  by (simp add: drop_bit_eq_div uint_div)

lemma scsi_cdb_length_word:
  "scsi_cdb_length sz buf =
     (let g = drop_bit 5 (buf 0) in
      if g = 0 then 6 else if g = 1 \<or> g = 2 then 10 else if g = 4 then 16
      else if g = 5 then 12 else sz)"
proof -
  have eq: "\<And>k. (uint (drop_bit 5 (buf 0)) = uint (k :: 8 word)) = (drop_bit 5 (buf 0) = k)"
    by (simp add: word_uint_eq_iff)
  show ?thesis
    using eq [of 0] eq [of 1] eq [of 2] eq [of 4] eq [of 5]
    by (simp add: scsi_cdb_length_def group_code_promoted Let_def)
qed

text \<open>
  Claim C10. \<^verbatim>\<open>scsi_cdb_length\<close> is a total function of the first byte of its buffer:
  it returns 6 when \<^verbatim>\<open>buf[0] >> 5\<close> is 0, 10 when it is 1 or 2, 16 when it is 4, 12 when it
  is 5, and \<^verbatim>\<open>VIRTIO_SCSI_CDB_SIZE\<close> for the group codes 3, 6 and 7, which are all the
  others; the result is one of 6, 10, 12, 16 and \<^verbatim>\<open>VIRTIO_SCSI_CDB_SIZE\<close>, and two buffers
  with the same first byte have the same length.
\<close>

theorem scsi_cdb_length_by_group:
  "(drop_bit 5 (buf 0) = 0 \<longrightarrow> scsi_cdb_length sz buf = 6) \<and>
   (drop_bit 5 (buf 0) = 1 \<or> drop_bit 5 (buf 0) = 2 \<longrightarrow> scsi_cdb_length sz buf = 10) \<and>
   (drop_bit 5 (buf 0) = 4 \<longrightarrow> scsi_cdb_length sz buf = 16) \<and>
   (drop_bit 5 (buf 0) = 5 \<longrightarrow> scsi_cdb_length sz buf = 12) \<and>
   (drop_bit 5 (buf 0) \<notin> {0, 1, 2, 4, 5} \<longrightarrow>
      drop_bit 5 (buf 0) \<in> {3, 6, 7} \<and> scsi_cdb_length sz buf = sz) \<and>
   scsi_cdb_length sz buf \<in> {6, 10, 12, 16, sz} \<and>
   (\<forall>buf'. buf' 0 = buf 0 \<longrightarrow> scsi_cdb_length sz buf' = scsi_cdb_length sz buf)"
proof -
  have same: "\<forall>buf'. buf' 0 = buf 0 \<longrightarrow> scsi_cdb_length sz buf' = scsi_cdb_length sz buf"
    by (simp add: scsi_cdb_length_def)
  have "drop_bit 5 (buf 0) \<in> {0, 1, 2, 3, 4, 5, 6, 7}"
    by (rule group_code_cases)
  then consider "drop_bit 5 (buf 0) = 0" | "drop_bit 5 (buf 0) = 1" | "drop_bit 5 (buf 0) = 2"
    | "drop_bit 5 (buf 0) = 3" | "drop_bit 5 (buf 0) = 4" | "drop_bit 5 (buf 0) = 5"
    | "drop_bit 5 (buf 0) = 6" | "drop_bit 5 (buf 0) = 7"
    by auto
  then show ?thesis
  proof cases
    case 1 with same show ?thesis by (simp add: scsi_cdb_length_word)
  next
    case 2 with same show ?thesis by (simp add: scsi_cdb_length_word)
  next
    case 3 with same show ?thesis by (simp add: scsi_cdb_length_word)
  next
    case 4 with same show ?thesis by (simp add: scsi_cdb_length_word)
  next
    case 5 with same show ?thesis by (simp add: scsi_cdb_length_word)
  next
    case 6 with same show ?thesis by (simp add: scsi_cdb_length_word)
  next
    case 7 with same show ?thesis by (simp add: scsi_cdb_length_word)
  next
    case 8 with same show ?thesis by (simp add: scsi_cdb_length_word)
  qed
qed

text \<open>
  The WRITE SAME(10) command of the test, opcode 0x41, is in group 2: ten bytes, whatever
  follows the opcode.
\<close>

theorem scsi_cdb_length_by_group_witness:
  "drop_bit 5 (0x41 :: 8 word) = 2 \<and>
   scsi_cdb_length 32 (\<lambda>i. if i = 0 then 0x41 else 0) = 10 \<and>
   scsi_cdb_length 32 (\<lambda>i. 0x41) = 10"
proof -
  let ?buf = "\<lambda>i::nat. if i = 0 then (0x41 :: 8 word) else 0"
  have g: "drop_bit 5 (?buf 0) = 2"
    by simp
  have "scsi_cdb_length 32 ?buf = 10"
    using scsi_cdb_length_by_group [of ?buf 32] g by simp
  moreover have "scsi_cdb_length 32 (\<lambda>i. 0x41) = scsi_cdb_length 32 ?buf"
    using scsi_cdb_length_by_group [of ?buf 32] by simp
  ultimately show ?thesis
    by simp
qed

section \<open>Properties of AIO_WAIT_WHILE\<close>

subsection \<open>Traces of the steps and of the loops\<close>

lemma trace_log [simp]: "trace (log e s) = trace s @ [e]"
  by (simp add: log_def)

lemma wait_obj_log [simp]: "wait_obj (log e s) = wait_obj s"
  by (simp add: log_def)

lemma world_log [simp]: "world (log e s) = world s"
  by (simp add: log_def)

lemma trace_atomic_inc [simp]: "trace (atomic_inc s) = trace s @ [AtomicInc]"
  by (simp add: atomic_inc_def)

lemma trace_atomic_dec [simp]: "trace (atomic_dec s) = trace s @ [AtomicDec]"
  by (simp add: atomic_dec_def)

lemma world_atomic_inc [simp]: "world (atomic_inc s) = world s"
  by (simp add: atomic_inc_def)

lemma world_atomic_dec [simp]: "world (atomic_dec s) = world s"
  by (simp add: atomic_dec_def)

lemma num_waiters_atomic_inc [simp]:
  "num_waiters (wait_obj (atomic_inc s)) = num_waiters (wait_obj s) + 1"
  by (simp add: atomic_inc_def)

lemma num_waiters_atomic_dec [simp]:
  "num_waiters (wait_obj (atomic_dec s)) = num_waiters (wait_obj s) - 1"
  by (simp add: atomic_dec_def)

lemma trace_co_queue_wait [simp]: "trace (co_queue_wait env s) = trace s @ [CoQueueWait]"
  by (simp add: co_queue_wait_def split: prod.splits)

lemma num_waiters_co_queue_wait [simp]:
  "num_waiters (wait_obj (co_queue_wait env s)) = num_waiters (wait_obj s)"
  by (simp add: co_queue_wait_def split: prod.splits)

lemma trace_poll [simp]: "trace (poll env c b s) = trace s @ [AioPoll c b]"
  by (simp add: poll_def)

lemma wait_obj_poll [simp]: "wait_obj (poll env c b s) = wait_obj s"
  by (simp add: poll_def)

lemma trace_context_release [simp]:
  "trace (context_release env c s) = trace s @ [ContextRelease c]"
  by (simp add: context_release_def)

lemma wait_obj_context_release [simp]: "wait_obj (context_release env c s) = wait_obj s"
  by (simp add: context_release_def)

lemma trace_context_acquire [simp]:
  "trace (context_acquire env c s) = trace s @ [ContextAcquire c]"
  by (simp add: context_acquire_def)

lemma wait_obj_context_acquire [simp]: "wait_obj (context_acquire env c s) = wait_obj s"
  by (simp add: context_acquire_def)

lemma eval_cond_eq:
  "eval_cond cond s = (b, s1) \<Longrightarrow>
     b = fst (cond (world s)) \<and> trace s1 = trace s @ [Cond b] \<and> wait_obj s1 = wait_obj s"
  by (auto simp: eval_cond_def split: prod.splits)

lemma trace_foreign_iteration [simp]:
  "trace (foreign_iteration env ctx s) = trace s @ foreign_block (qemu_get_aio_context env) ctx"
  by (simp add: foreign_iteration_def foreign_block_def Let_def split: option.splits)

lemma wait_obj_foreign_iteration [simp]: "wait_obj (foreign_iteration env ctx s) = wait_obj s"
  by (simp add: foreign_iteration_def Let_def split: option.splits)


lemma home_thread_path_shape:
  "(\<exists>s'. home_thread_path env cond c n waited s = Waiting s' \<and>
         trace s' = trace s @ rounds [AioPoll c True] n \<and> wait_obj s' = wait_obj s) \<or>
   (\<exists>s' k. home_thread_path env cond c n waited s = Returned (waited \<or> 0 < k) s' \<and> k < n \<and>
         trace s' = trace s @ rounds [AioPoll c True] k @ [Cond False] \<and>
         wait_obj s' = wait_obj s \<and> (0 < k) = fst (cond (world s)))"
proof (induction n arbitrary: s waited)
  case 0
  show ?case by simp
next
  case (Suc n)
  obtain b s1 where ev: "eval_cond cond s = (b, s1)"
    by (cases "eval_cond cond s")
  note e = eval_cond_eq [OF ev]
  show ?case
  proof (cases b)
    case False
    with ev e have "home_thread_path env cond c (Suc n) waited s = Returned (waited \<or> 0 < (0::nat)) s1 \<and>
        trace s1 = trace s @ rounds [AioPoll c True] 0 @ [Cond False] \<and>
        wait_obj s1 = wait_obj s \<and> (0 < (0::nat)) = fst (cond (world s))"
      by simp
    then show ?thesis by blast
  next
    case True
    let ?s2 = "poll env c True s1"
    have step: "home_thread_path env cond c (Suc n) waited s = home_thread_path env cond c n True ?s2"
      using ev True by simp
    have tr: "trace ?s2 = trace s @ [Cond True, AioPoll c True]"
      using e True by simp
    have nw: "wait_obj ?s2 = wait_obj s"
      using e by simp
    from Suc.IH [of True ?s2] show ?thesis
    proof (elim disjE exE conjE)
      fix s'
      assume "home_thread_path env cond c n True ?s2 = Waiting s'"
        and "trace s' = trace ?s2 @ rounds [AioPoll c True] n"
        and "wait_obj s' = wait_obj ?s2"
      with step tr nw show ?thesis by simp
    next
      fix s' k
      assume "home_thread_path env cond c n True ?s2 = Returned (True \<or> 0 < k) s'" and "k < n"
        and "trace s' = trace ?s2 @ rounds [AioPoll c True] k @ [Cond False]"
        and "wait_obj s' = wait_obj ?s2"
        and "(0 < k) = fst (cond (world ?s2))"
      with step tr nw e True have "home_thread_path env cond c (Suc n) waited s = Returned (waited \<or> 0 < Suc k) s' \<and>
          Suc k < Suc n \<and> trace s' = trace s @ rounds [AioPoll c True] (Suc k) @ [Cond False] \<and>
          wait_obj s' = wait_obj s \<and> (0 < Suc k) = fst (cond (world s))"
        by simp
      then show ?thesis by blast
    qed
  qed
qed

lemma foreign_wait_loop_shape:
  "(\<exists>s'. foreign_wait_loop env cond ctx n waited s = Waiting s' \<and>
         trace s' = trace s @ rounds (foreign_block (qemu_get_aio_context env) ctx) n \<and>
         wait_obj s' = wait_obj s) \<or>
   (\<exists>s' k. foreign_wait_loop env cond ctx n waited s = Returned (waited \<or> 0 < k) s' \<and> k < n \<and>
         trace s' = trace s @ rounds (foreign_block (qemu_get_aio_context env) ctx) k @ [Cond False] \<and>
         wait_obj s' = wait_obj s \<and> (0 < k) = fst (cond (world s)))"
proof (induction n arbitrary: s waited)
  case 0
  show ?case by simp
next
  case (Suc n)
  let ?B = "foreign_block (qemu_get_aio_context env) ctx"
  obtain b s1 where ev: "eval_cond cond s = (b, s1)"
    by (cases "eval_cond cond s")
  note e = eval_cond_eq [OF ev]
  show ?case
  proof (cases b)
    case False
    with ev e have "foreign_wait_loop env cond ctx (Suc n) waited s = Returned (waited \<or> 0 < (0::nat)) s1 \<and>
        trace s1 = trace s @ rounds ?B 0 @ [Cond False] \<and> wait_obj s1 = wait_obj s \<and>
        (0 < (0::nat)) = fst (cond (world s))"
      by simp
    then show ?thesis by blast
  next
    case True
    let ?s2 = "foreign_iteration env ctx s1"
    have step: "foreign_wait_loop env cond ctx (Suc n) waited s = foreign_wait_loop env cond ctx n True ?s2"
      using ev True by simp
    have tr: "trace ?s2 = trace s @ Cond True # ?B"
      using e True by simp
    have nw: "wait_obj ?s2 = wait_obj s"
      using e by simp
    from Suc.IH [of True ?s2] show ?thesis
    proof (elim disjE exE conjE)
      fix s'
      assume "foreign_wait_loop env cond ctx n True ?s2 = Waiting s'"
        and "trace s' = trace ?s2 @ rounds ?B n"
        and "wait_obj s' = wait_obj ?s2"
      with step tr nw show ?thesis by simp
    next
      fix s' k
      assume "foreign_wait_loop env cond ctx n True ?s2 = Returned (True \<or> 0 < k) s'" and "k < n"
        and "trace s' = trace ?s2 @ rounds ?B k @ [Cond False]"
        and "wait_obj s' = wait_obj ?s2"
        and "(0 < k) = fst (cond (world ?s2))"
      with step tr nw e True have "foreign_wait_loop env cond ctx (Suc n) waited s = Returned (waited \<or> 0 < Suc k) s' \<and>
          Suc k < Suc n \<and> trace s' = trace s @ rounds ?B (Suc k) @ [Cond False] \<and>
          wait_obj s' = wait_obj s \<and> (0 < Suc k) = fst (cond (world s))"
        by simp
      then show ?thesis by blast
    qed
  qed
qed

lemma foreign_thread_path_abort:
  "qemu_get_current_aio_context env (world s) \<noteq> qemu_get_aio_context env \<Longrightarrow>
   foreign_thread_path env cond ctx n waited s = Aborted (log (Assert False) s)"
  by (simp add: foreign_thread_path_def)

lemma foreign_thread_path_shape:
  assumes "qemu_get_current_aio_context env (world s) = qemu_get_aio_context env"
  shows "(\<exists>s'. foreign_thread_path env cond ctx n waited s = Waiting s' \<and>
         trace s' = trace s @ Assert True # AtomicInc #
            rounds (foreign_block (qemu_get_aio_context env) ctx) n \<and>
         num_waiters (wait_obj s') = num_waiters (wait_obj s) + 1) \<or>
   (\<exists>s' k. foreign_thread_path env cond ctx n waited s = Returned (waited \<or> 0 < k) s' \<and> k < n \<and>
         trace s' = trace s @ Assert True # AtomicInc #
            rounds (foreign_block (qemu_get_aio_context env) ctx) k @ [Cond False, AtomicDec] \<and>
         num_waiters (wait_obj s') = num_waiters (wait_obj s) \<and>
         (0 < k) = fst (cond (world s)))"
proof -
  let ?s0 = "atomic_inc (log (Assert True) s)"
  have tr: "trace ?s0 = trace s @ [Assert True, AtomicInc]"
    by simp
  have nw: "num_waiters (wait_obj ?s0) = num_waiters (wait_obj s) + 1"
    by simp
  from foreign_wait_loop_shape [of env cond ctx n waited ?s0] show ?thesis
  proof (elim disjE exE conjE)
    fix s'
    assume "foreign_wait_loop env cond ctx n waited ?s0 = Waiting s'"
      and "trace s' = trace ?s0 @ rounds (foreign_block (qemu_get_aio_context env) ctx) n"
      and "wait_obj s' = wait_obj ?s0"
    with assms tr nw show ?thesis
      by (simp add: foreign_thread_path_def)
  next
    fix s' k
    assume "foreign_wait_loop env cond ctx n waited ?s0 = Returned (waited \<or> 0 < k) s'" and "k < n"
      and "trace s' = trace ?s0 @ rounds (foreign_block (qemu_get_aio_context env) ctx) k @ [Cond False]"
      and "wait_obj s' = wait_obj ?s0"
      and "(0 < k) = fst (cond (world ?s0))"
    with assms tr nw have "foreign_thread_path env cond ctx n waited s = Returned (waited \<or> 0 < k) (atomic_dec s') \<and>
        k < n \<and>
        trace (atomic_dec s') = trace s @ Assert True # AtomicInc #
            rounds (foreign_block (qemu_get_aio_context env) ctx) k @ [Cond False, AtomicDec] \<and>
        num_waiters (wait_obj (atomic_dec s')) = num_waiters (wait_obj s) \<and>
        (0 < k) = fst (cond (world s))"
      by (simp add: foreign_thread_path_def)
    then show ?thesis by blast
  qed
qed

subsection \<open>The macro on each path\<close>

lemma rounds_concat: "rounds blk k = concat (replicate k (Cond True # blk))"
  by (induction k) simp_all

lemma set_rounds: "set (rounds blk k) \<subseteq> insert (Cond True) (set blk)"
  by (induction k) auto



lemma AIO_WAIT_WHILE_coroutine:
  "qemu_in_coroutine env (world s) \<Longrightarrow>
   AIO_WAIT_WHILE env n ctx cond s = coroutine_path env cond n False s"
  by (simp add: AIO_WAIT_WHILE_def)

lemma AIO_WAIT_WHILE_home:
  "\<not> qemu_in_coroutine env (world s) \<Longrightarrow> ctx = Some c \<Longrightarrow>
   in_aio_context_home_thread env c (world s) \<Longrightarrow>
   AIO_WAIT_WHILE env n ctx cond s = home_thread_path env cond c n False s"
  by (simp add: AIO_WAIT_WHILE_def)

lemma AIO_WAIT_WHILE_foreign:
  "\<not> qemu_in_coroutine env (world s) \<Longrightarrow>
   \<forall>c. ctx = Some c \<longrightarrow> \<not> in_aio_context_home_thread env c (world s) \<Longrightarrow>
   AIO_WAIT_WHILE env n ctx cond s = foreign_thread_path env cond ctx n False s"
  by (simp add: AIO_WAIT_WHILE_def split: option.splits)


lemma home_run:
  assumes "\<not> qemu_in_coroutine env (world s)" and "ctx = Some c"
    and "in_aio_context_home_thread env c (world s)"
  shows "(\<exists>s'. AIO_WAIT_WHILE env n ctx cond s = Waiting s' \<and>
          emitted s (AIO_WAIT_WHILE env n ctx cond s) = rounds [AioPoll c True] n \<and>
          wait_obj s' = wait_obj s) \<or>
    (\<exists>s' k. AIO_WAIT_WHILE env n ctx cond s = Returned (0 < k) s' \<and> k < n \<and>
          emitted s (AIO_WAIT_WHILE env n ctx cond s) = rounds [AioPoll c True] k @ [Cond False] \<and>
          wait_obj s' = wait_obj s \<and> (0 < k) = fst (cond (world s)))"
  using home_thread_path_shape [of env cond c n False s]
  by (auto simp: AIO_WAIT_WHILE_home [OF assms] emitted_def)

lemma foreign_run:
  assumes "\<not> qemu_in_coroutine env (world s)"
    and "\<forall>c. ctx = Some c \<longrightarrow> \<not> in_aio_context_home_thread env c (world s)"
  shows "(qemu_get_current_aio_context env (world s) \<noteq> qemu_get_aio_context env \<and>
          AIO_WAIT_WHILE env n ctx cond s = Aborted (log (Assert False) s) \<and>
          emitted s (AIO_WAIT_WHILE env n ctx cond s) = [Assert False]) \<or>
    (qemu_get_current_aio_context env (world s) = qemu_get_aio_context env \<and>
     (\<exists>s'. AIO_WAIT_WHILE env n ctx cond s = Waiting s' \<and>
          emitted s (AIO_WAIT_WHILE env n ctx cond s) =
            Assert True # AtomicInc # rounds (foreign_block (qemu_get_aio_context env) ctx) n \<and>
          num_waiters (wait_obj s') = num_waiters (wait_obj s) + 1)) \<or>
    (qemu_get_current_aio_context env (world s) = qemu_get_aio_context env \<and>
     (\<exists>s' k. AIO_WAIT_WHILE env n ctx cond s = Returned (0 < k) s' \<and> k < n \<and>
          emitted s (AIO_WAIT_WHILE env n ctx cond s) =
            Assert True # AtomicInc # rounds (foreign_block (qemu_get_aio_context env) ctx) k @
              [Cond False, AtomicDec] \<and>
          num_waiters (wait_obj s') = num_waiters (wait_obj s) \<and>
          (0 < k) = fst (cond (world s))))"
proof (cases "qemu_get_current_aio_context env (world s) = qemu_get_aio_context env")
  case False
  then show ?thesis
    by (simp add: AIO_WAIT_WHILE_foreign [OF assms] foreign_thread_path_abort emitted_def)
next
  case True
  from foreign_thread_path_shape [OF True, of cond ctx n False] True show ?thesis
    by (auto simp: AIO_WAIT_WHILE_foreign [OF assms] emitted_def)
qed

subsection \<open>The foreign-thread path\<close>

lemma split_after_two:
  "x # y # rest = pre @ e # post \<Longrightarrow> e \<noteq> x \<Longrightarrow> e \<noteq> y \<Longrightarrow> y \<in> set pre"
  by (cases pre; cases "tl pre") auto

lemma last_occurrence:
  assumes "d \<notin> set xs" and "xs @ [d] = pre @ d # post"
  shows "post = [] \<and> pre = xs"
proof (cases post rule: rev_cases)
  case Nil
  with assms(2) show ?thesis by simp
next
  case (snoc ys y)
  with assms(2) have "xs @ [d] = (pre @ d # ys) @ [y]"
    by simp
  then have "xs = pre @ d # ys"
    by (simp only: append1_eq_conv)
  with assms(1) show ?thesis by simp
qed

lemma foreign_block_no_dec: "AtomicDec \<notin> set (foreign_block g ctx)"
  by (simp add: foreign_block_def split: option.splits)

lemma rounds_no_dec: "AtomicDec \<notin> set blk \<Longrightarrow> AtomicDec \<notin> set (rounds blk k)"
  using set_rounds [of blk k] by auto

lemma eval_cond_world:
  "eval_cond cond s = (b, s1) \<Longrightarrow> world s1 = snd (cond (world s))"
  by (auto simp: eval_cond_def split: prod.splits)

lemma foreign_iteration_world:
  "world (foreign_iteration env ctx s) =
     (case ctx of
        None \<Rightarrow> aio_poll env (qemu_get_aio_context env) True (world s)
      | Some c \<Rightarrow> aio_context_acquire env c
          (aio_poll env (qemu_get_aio_context env) True (aio_context_release env c (world s))))"
  by (simp add: foreign_iteration_def poll_def context_release_def context_acquire_def Let_def
      split: option.splits)

lemma funpow_all_less:
  assumes "P w" and "\<forall>j<k. P ((f ^^ j) (f w))"
  shows "\<forall>j<Suc k. P ((f ^^ j) w)"
proof (intro allI impI)
  fix j
  assume j: "j < Suc k"
  show "P ((f ^^ j) w)"
  proof (cases j)
    case 0
    with assms(1) show ?thesis by simp
  next
    case (Suc i)
    with j assms(2) have "P ((f ^^ i) (f w))"
      by simp
    then show ?thesis
      unfolding Suc by (simp only: funpow_Suc_right o_apply)
  qed
qed

lemma foreign_wait_loop_states:
  assumes pass: "\<And>w. pass w =
     (case ctx of
        None \<Rightarrow> aio_poll env (qemu_get_aio_context env) True (snd (cond w))
      | Some c \<Rightarrow> aio_context_acquire env c
          (aio_poll env (qemu_get_aio_context env) True
             (aio_context_release env c (snd (cond w)))))"
  shows "(\<exists>s'. foreign_wait_loop env cond ctx n waited s = Waiting s' \<and>
         trace s' = trace s @ rounds (foreign_block (qemu_get_aio_context env) ctx) n \<and>
         wait_obj s' = wait_obj s \<and>
         world s' = (pass ^^ n) (world s) \<and>
         (\<forall>j<n. fst (cond ((pass ^^ j) (world s))))) \<or>
   (\<exists>s' k. foreign_wait_loop env cond ctx n waited s = Returned (waited \<or> 0 < k) s' \<and> k < n \<and>
         trace s' = trace s @ rounds (foreign_block (qemu_get_aio_context env) ctx) k @ [Cond False] \<and>
         wait_obj s' = wait_obj s \<and>
         world s' = snd (cond ((pass ^^ k) (world s))) \<and>
         (\<forall>j<k. fst (cond ((pass ^^ j) (world s)))) \<and>
         \<not> fst (cond ((pass ^^ k) (world s))))"
proof (induction n arbitrary: s waited)
  case 0
  show ?case by simp
next
  case (Suc n)
  let ?B = "foreign_block (qemu_get_aio_context env) ctx"
  obtain b s1 where ev: "eval_cond cond s = (b, s1)"
    by (cases "eval_cond cond s")
  note e = eval_cond_eq [OF ev]
  note w1 = eval_cond_world [OF ev]
  show ?case
  proof (cases b)
    case False
    with ev e w1 have "foreign_wait_loop env cond ctx (Suc n) waited s = Returned (waited \<or> 0 < (0::nat)) s1 \<and>
        0 < Suc n \<and>
        trace s1 = trace s @ rounds ?B 0 @ [Cond False] \<and> wait_obj s1 = wait_obj s \<and>
        world s1 = snd (cond ((pass ^^ 0) (world s))) \<and>
        (\<forall>j<(0::nat). fst (cond ((pass ^^ j) (world s)))) \<and>
        \<not> fst (cond ((pass ^^ 0) (world s)))"
      by simp
    then show ?thesis by blast
  next
    case True
    let ?s2 = "foreign_iteration env ctx s1"
    have step: "foreign_wait_loop env cond ctx (Suc n) waited s = foreign_wait_loop env cond ctx n True ?s2"
      using ev True by simp
    have tr: "trace ?s2 = trace s @ Cond True # ?B"
      using e True by simp
    have nw: "wait_obj ?s2 = wait_obj s"
      using e by simp
    have w2: "world ?s2 = pass (world s)"
      unfolding foreign_iteration_world w1 pass ..
    have c0: "fst (cond (world s))"
      using e True by simp
    have pw: "\<And>j. (pass ^^ j) (world ?s2) = (pass ^^ Suc j) (world s)"
      unfolding w2 by (simp only: funpow_Suc_right o_apply)
    from Suc.IH [of True ?s2] show ?thesis
    proof (elim disjE exE conjE)
      fix s'
      assume a: "foreign_wait_loop env cond ctx n True ?s2 = Waiting s'"
        "trace s' = trace ?s2 @ rounds ?B n"
        "wait_obj s' = wait_obj ?s2"
        "world s' = (pass ^^ n) (world ?s2)"
        and all: "\<forall>j<n. fst (cond ((pass ^^ j) (world ?s2)))"
      have all': "\<forall>j<Suc n. fst (cond ((pass ^^ j) (world s)))"
        using funpow_all_less [of "\<lambda>w. fst (cond w)" "world s" n pass] c0 all
        unfolding w2 by blast
      have "foreign_wait_loop env cond ctx (Suc n) waited s = Waiting s' \<and>
          trace s' = trace s @ rounds ?B (Suc n) \<and> wait_obj s' = wait_obj s \<and>
          world s' = (pass ^^ Suc n) (world s)"
        using step tr nw a unfolding pw by simp
      with all' show ?thesis by blast
    next
      fix s' k
      assume a: "foreign_wait_loop env cond ctx n True ?s2 = Returned (True \<or> 0 < k) s'" "k < n"
        "trace s' = trace ?s2 @ rounds ?B k @ [Cond False]"
        "wait_obj s' = wait_obj ?s2"
        "world s' = snd (cond ((pass ^^ k) (world ?s2)))"
        and all: "\<forall>j<k. fst (cond ((pass ^^ j) (world ?s2)))"
        and last: "\<not> fst (cond ((pass ^^ k) (world ?s2)))"
      have all': "\<forall>j<Suc k. fst (cond ((pass ^^ j) (world s)))"
        using funpow_all_less [of "\<lambda>w. fst (cond w)" "world s" k pass] c0 all
        unfolding w2 by blast
      have last': "\<not> fst (cond ((pass ^^ Suc k) (world s)))"
        using last unfolding pw .
      have "foreign_wait_loop env cond ctx (Suc n) waited s = Returned (waited \<or> 0 < Suc k) s' \<and>
          Suc k < Suc n \<and> trace s' = trace s @ rounds ?B (Suc k) @ [Cond False] \<and>
          wait_obj s' = wait_obj s \<and>
          world s' = snd (cond ((pass ^^ Suc k) (world s)))"
        using step tr nw a unfolding pw by simp
      with all' last' show ?thesis by blast
    qed
  qed
qed

lemma foreign_states:
  assumes "\<not> qemu_in_coroutine env (world s)"
    and "\<forall>c. ctx = Some c \<longrightarrow> \<not> in_aio_context_home_thread env c (world s)"
    and main: "qemu_get_current_aio_context env (world s) = qemu_get_aio_context env"
    and pass: "\<And>w. pass w =
     (case ctx of
        None \<Rightarrow> aio_poll env (qemu_get_aio_context env) True (snd (cond w))
      | Some c \<Rightarrow> aio_context_acquire env c
          (aio_poll env (qemu_get_aio_context env) True
             (aio_context_release env c (snd (cond w)))))"
  shows "(\<exists>s'. AIO_WAIT_WHILE env n ctx cond s = Waiting s' \<and>
          emitted s (AIO_WAIT_WHILE env n ctx cond s) =
            Assert True # AtomicInc # rounds (foreign_block (qemu_get_aio_context env) ctx) n \<and>
          world s' = (pass ^^ n) (world s) \<and>
          (\<forall>j<n. fst (cond ((pass ^^ j) (world s))))) \<or>
    (\<exists>s' k. AIO_WAIT_WHILE env n ctx cond s = Returned (0 < k) s' \<and> k < n \<and>
          emitted s (AIO_WAIT_WHILE env n ctx cond s) =
            Assert True # AtomicInc # rounds (foreign_block (qemu_get_aio_context env) ctx) k @
              [Cond False, AtomicDec] \<and>
          world s' = snd (cond ((pass ^^ k) (world s))) \<and>
          (\<forall>j<k. fst (cond ((pass ^^ j) (world s)))) \<and>
          \<not> fst (cond ((pass ^^ k) (world s))))"
proof -
  let ?s0 = "atomic_inc (log (Assert True) s)"
  let ?B = "foreign_block (qemu_get_aio_context env) ctx"
  have run: "AIO_WAIT_WHILE env n ctx cond s =
      (case foreign_wait_loop env cond ctx n False ?s0 of
         Returned waited' s' \<Rightarrow> Returned waited' (atomic_dec s')
       | Aborted s' \<Rightarrow> Aborted s'
       | Waiting s' \<Rightarrow> Waiting s')"
    using main by (simp add: AIO_WAIT_WHILE_foreign [OF assms(1,2)] foreign_thread_path_def)
  have w0: "world ?s0 = world s"
    by simp
  have tr: "trace ?s0 = trace s @ [Assert True, AtomicInc]"
    by simp
  from foreign_wait_loop_states [where pass = pass and ctx = ctx and env = env and cond = cond
      and n = n and waited = False and s = ?s0, OF pass] show ?thesis
    unfolding w0
  proof (elim disjE exE conjE)
    fix s'
    assume a: "foreign_wait_loop env cond ctx n False ?s0 = Waiting s'"
      "trace s' = trace ?s0 @ rounds ?B n"
      "world s' = (pass ^^ n) (world s)"
      and all: "\<forall>j<n. fst (cond ((pass ^^ j) (world s)))"
    have "AIO_WAIT_WHILE env n ctx cond s = Waiting s' \<and>
        emitted s (AIO_WAIT_WHILE env n ctx cond s) = Assert True # AtomicInc # rounds ?B n \<and>
        world s' = (pass ^^ n) (world s)"
      using a tr unfolding run by (simp add: emitted_def)
    with all show ?thesis by blast
  next
    fix s' k
    assume a: "foreign_wait_loop env cond ctx n False ?s0 = Returned (False \<or> 0 < k) s'" "k < n"
      "trace s' = trace ?s0 @ rounds ?B k @ [Cond False]"
      "world s' = snd (cond ((pass ^^ k) (world s)))"
      and all: "\<forall>j<k. fst (cond ((pass ^^ j) (world s)))"
      and last: "\<not> fst (cond ((pass ^^ k) (world s)))"
    have "AIO_WAIT_WHILE env n ctx cond s = Returned (0 < k) (atomic_dec s') \<and> k < n \<and>
        emitted s (AIO_WAIT_WHILE env n ctx cond s) =
          Assert True # AtomicInc # rounds ?B k @ [Cond False, AtomicDec] \<and>
        world (atomic_dec s') = snd (cond ((pass ^^ k) (world s)))"
      using a tr unfolding run by (simp add: emitted_def)
    with all last show ?thesis by blast
  qed
qed

text \<open>
  Claim C1. On the foreign-thread path (the caller is not in a coroutine and is not the home
  thread of a non-NULL \<open>ctx\<close>), whatever the number of loop iterations, every evaluation of
  the condition is preceded by the increment of \<open>num_waiters\<close>, the decrement is the last
  thing the call does and directly follows the evaluation that found the condition false,
  and a call that returns has decremented. The counter itself follows: a call observed at
  the head of the loop, about to evaluate the condition for the first or any later time,
  holds the counter one above its value at the call; a call that has returned has put it
  back to that value; a call stopped by the assertion has not touched it.
\<close>

theorem foreign_path_increment_brackets_condition:
  assumes "\<not> qemu_in_coroutine env (world s)"
    and "\<forall>c. ctx = Some c \<longrightarrow> \<not> in_aio_context_home_thread env c (world s)"
  shows "let out = AIO_WAIT_WHILE env n ctx cond s; evs = emitted s out in
    (\<forall>pre b post. evs = pre @ Cond b # post \<longrightarrow> AtomicInc \<in> set pre) \<and>
    (\<forall>pre post. evs = pre @ AtomicDec # post \<longrightarrow>
        post = [] \<and> (\<exists>pre'. pre = pre' @ [Cond False])) \<and>
    (\<forall>r s'. out = Returned r s' \<longrightarrow> (\<exists>pre. evs = pre @ [Cond False, AtomicDec])) \<and>
    (\<forall>s'. out = Waiting s' \<longrightarrow>
        num_waiters (wait_obj s') = num_waiters (wait_obj s) + 1) \<and>
    (\<forall>r s'. out = Returned r s' \<longrightarrow> num_waiters (wait_obj s') = num_waiters (wait_obj s)) \<and>
    (\<forall>s'. out = Aborted s' \<longrightarrow> num_waiters (wait_obj s') = num_waiters (wait_obj s))"
proof -
  let ?out = "AIO_WAIT_WHILE env n ctx cond s"
  let ?evs = "emitted s ?out"
  let ?B = "foreign_block (qemu_get_aio_context env) ctx"
  let ?count = "(\<forall>s'. ?out = Waiting s' \<longrightarrow>
        num_waiters (wait_obj s') = num_waiters (wait_obj s) + 1) \<and>
    (\<forall>r s'. ?out = Returned r s' \<longrightarrow> num_waiters (wait_obj s') = num_waiters (wait_obj s)) \<and>
    (\<forall>s'. ?out = Aborted s' \<longrightarrow> num_waiters (wait_obj s') = num_waiters (wait_obj s))"
  from foreign_run [OF assms, of n cond]
  consider (abort) "?out = Aborted (log (Assert False) s)" "?evs = [Assert False]"
    | (waiting) s' where "?out = Waiting s'" "?evs = Assert True # AtomicInc # rounds ?B n"
        "num_waiters (wait_obj s') = num_waiters (wait_obj s) + 1"
    | (returned) s' k where "?out = Returned (0 < k) s'"
        "?evs = Assert True # AtomicInc # rounds ?B k @ [Cond False, AtomicDec]"
        "num_waiters (wait_obj s') = num_waiters (wait_obj s)"
    by blast
  then have "(\<forall>pre b post. ?evs = pre @ Cond b # post \<longrightarrow> AtomicInc \<in> set pre) \<and>
    (\<forall>pre post. ?evs = pre @ AtomicDec # post \<longrightarrow>
        post = [] \<and> (\<exists>pre'. pre = pre' @ [Cond False])) \<and>
    (\<forall>r s'. ?out = Returned r s' \<longrightarrow> (\<exists>pre. ?evs = pre @ [Cond False, AtomicDec])) \<and>
    ?count"
  proof cases
    case abort
    have "?count"
      unfolding abort(1) by simp
    with abort show ?thesis
      by (simp add: Cons_eq_append_conv)
  next
    case waiting
    have "AtomicDec \<notin> set ?evs"
      using rounds_no_dec [OF foreign_block_no_dec, of _ ctx n] waiting(2) by simp
    then have "\<forall>pre post. ?evs \<noteq> pre @ AtomicDec # post"
      by (metis in_set_conv_decomp)
    moreover have "\<forall>pre b post. ?evs = pre @ Cond b # post \<longrightarrow> AtomicInc \<in> set pre"
      using waiting(2) by (auto dest: split_after_two)
    moreover have "?count"
      unfolding waiting(1) using waiting(3) by simp
    ultimately show ?thesis
      using waiting(1) by simp
  next
    case returned
    let ?xs = "Assert True # AtomicInc # rounds ?B k @ [Cond False]"
    have xs: "?evs = ?xs @ [AtomicDec]"
      using returned(2) by simp
    have "AtomicDec \<notin> set ?xs"
      using rounds_no_dec [OF foreign_block_no_dec, of _ ctx k] by simp
    then have "\<forall>pre post. ?evs = pre @ AtomicDec # post \<longrightarrow> post = [] \<and> pre = ?xs"
      unfolding xs by (blast dest: last_occurrence)
    then have dec: "\<forall>pre post. ?evs = pre @ AtomicDec # post \<longrightarrow>
        post = [] \<and> (\<exists>pre'. pre = pre' @ [Cond False])"
      by (metis append_Cons)
    have inc: "\<forall>pre b post. ?evs = pre @ Cond b # post \<longrightarrow> AtomicInc \<in> set pre"
      using returned(2) by (auto dest: split_after_two)
    have "\<exists>pre. ?evs = pre @ [Cond False, AtomicDec]"
      using returned(2) by (metis append_Cons)
    moreover have "?count"
      unfolding returned(1) using returned(3) by simp
    ultimately show ?thesis
      using inc dec by blast
  qed
  then show ?thesis
    by (simp only: Let_def)
qed

text \<open>
  The main loop thread (context 0) waits on the context 7 of an IOThread for two events:
  once followed until it returns, once observed at the loop head after the first iteration.
\<close>

theorem foreign_path_increment_brackets_condition_witness:
  "\<not> qemu_in_coroutine (demo_env False 0) (world (demo_machine 2)) \<and>
   \<not> in_aio_context_home_thread (demo_env False 0) 7 (world (demo_machine 2)) \<and>
   emitted (demo_machine 2) (AIO_WAIT_WHILE (demo_env False 0) 5 (Some 7) busy (demo_machine 2)) =
     [Assert True, AtomicInc,
      Cond True, ContextRelease 7, AioPoll 0 True, ContextAcquire 7,
      Cond True, ContextRelease 7, AioPoll 0 True, ContextAcquire 7,
      Cond False, AtomicDec] \<and>
   (\<exists>pre. emitted (demo_machine 2)
       (AIO_WAIT_WHILE (demo_env False 0) 5 (Some 7) busy (demo_machine 2)) =
     pre @ [Cond False, AtomicDec]) \<and>
   num_waiters (wait_obj (machine_of
       (AIO_WAIT_WHILE (demo_env False 0) 5 (Some 7) busy (demo_machine 2)))) = 0 \<and>
   emitted (demo_machine 2) (AIO_WAIT_WHILE (demo_env False 0) 1 (Some 7) busy (demo_machine 2)) =
     [Assert True, AtomicInc,
      Cond True, ContextRelease 7, AioPoll 0 True, ContextAcquire 7] \<and>
   num_waiters (wait_obj (machine_of
       (AIO_WAIT_WHILE (demo_env False 0) 1 (Some 7) busy (demo_machine 2)))) = 1"
proof -
  have h1: "\<not> qemu_in_coroutine (demo_env False 0) (world (demo_machine 2))"
    by (simp add: demo_env_def)
  have h2: "\<forall>c. Some 7 = Some c \<longrightarrow>
      \<not> in_aio_context_home_thread (demo_env False 0) c (world (demo_machine 2))"
    by (simp add: demo_env_def)
  have h2': "\<not> in_aio_context_home_thread (demo_env False 0) 7 (world (demo_machine 2))"
    by (simp add: demo_env_def)
  have n0: "num_waiters (wait_obj (demo_machine 2)) = 0"
    by (simp add: demo_machine_def)
  have run: "AIO_WAIT_WHILE (demo_env False 0) 5 (Some 7) busy (demo_machine 2) =
      Returned True \<lparr>wait_obj = \<lparr>num_waiters = 0, wait_queue = []\<rparr>, world = 0,
        trace = [Assert True, AtomicInc,
          Cond True, ContextRelease 7, AioPoll 0 True, ContextAcquire 7,
          Cond True, ContextRelease 7, AioPoll 0 True, ContextAcquire 7,
          Cond False, AtomicDec]\<rparr>"
    by code_simp
  have seen: "AIO_WAIT_WHILE (demo_env False 0) 1 (Some 7) busy (demo_machine 2) =
      Waiting \<lparr>wait_obj = \<lparr>num_waiters = 1, wait_queue = []\<rparr>, world = 1,
        trace = [Assert True, AtomicInc,
          Cond True, ContextRelease 7, AioPoll 0 True, ContextAcquire 7]\<rparr>"
    by code_simp
  have evs: "emitted (demo_machine 2)
      (AIO_WAIT_WHILE (demo_env False 0) 5 (Some 7) busy (demo_machine 2)) =
     [Assert True, AtomicInc,
      Cond True, ContextRelease 7, AioPoll 0 True, ContextAcquire 7,
      Cond True, ContextRelease 7, AioPoll 0 True, ContextAcquire 7,
      Cond False, AtomicDec]"
    by code_simp
  have evs1: "emitted (demo_machine 2)
      (AIO_WAIT_WHILE (demo_env False 0) 1 (Some 7) busy (demo_machine 2)) =
     [Assert True, AtomicInc,
      Cond True, ContextRelease 7, AioPoll 0 True, ContextAcquire 7]"
    by code_simp
  note ret = foreign_path_increment_brackets_condition [OF h1 h2, of 5 busy]
  note seen_one = foreign_path_increment_brackets_condition [OF h1 h2, of 1 busy]
  have dec: "\<exists>pre. emitted (demo_machine 2)
       (AIO_WAIT_WHILE (demo_env False 0) 5 (Some 7) busy (demo_machine 2)) =
     pre @ [Cond False, AtomicDec]"
    using ret run by (simp only: Let_def)
  have restored: "num_waiters (wait_obj (machine_of
       (AIO_WAIT_WHILE (demo_env False 0) 5 (Some 7) busy (demo_machine 2)))) = 0"
    using ret unfolding Let_def run n0 by simp
  have raised: "num_waiters (wait_obj (machine_of
       (AIO_WAIT_WHILE (demo_env False 0) 1 (Some 7) busy (demo_machine 2)))) = 1"
    using seen_one unfolding Let_def seen n0 by simp
  from h1 h2' evs dec restored evs1 raised show ?thesis
    by (intro conjI)
qed

text \<open>
  Claim C3. On the foreign-thread path the trace after the assertion and the increment is a
  sequence of iterations, one per evaluation that found the condition true. An iteration
  releases \<open>ctx\<close> when it is non-NULL, polls the global context once, blocking, and
  reacquires \<open>ctx\<close> when it is non-NULL; with \<open>ctx = NULL\<close> there is no release and no
  acquire. The value returned is true exactly when there was at least one iteration.

  The state outside the wait object follows the same steps. One pass of the loop takes it
  through the condition and then through \<open>aio_context_release\<close>, \<open>aio_poll\<close> of the global
  context and \<open>aio_context_acquire\<close>, applied in this order (the poll alone when \<open>ctx\<close> is
  NULL). After \<open>k\<close> iterations the state is the \<open>k\<close>-fold pass of the initial one, each of
  the \<open>k\<close> passes was entered with the condition true, and a call that returns does so on the
  first state in which the condition is false, leaving the state that evaluation produced.
\<close>

theorem foreign_path_iteration_steps:
  assumes "\<not> qemu_in_coroutine env (world s)"
    and "\<forall>c. ctx = Some c \<longrightarrow> \<not> in_aio_context_home_thread env c (world s)"
  shows "let g = qemu_get_aio_context env;
             out = AIO_WAIT_WHILE env n ctx cond s;
             evs = emitted s out;
             iteration = (case ctx of
                 None \<Rightarrow> [Cond True, AioPoll g True]
               | Some c \<Rightarrow> [Cond True, ContextRelease c, AioPoll g True, ContextAcquire c]);
             body = (\<lambda>w. case ctx of
                 None \<Rightarrow> aio_poll env g True w
               | Some c \<Rightarrow> aio_context_acquire env c
                   (aio_poll env g True (aio_context_release env c w)));
             pass = (\<lambda>w. body (snd (cond w)))
         in (\<exists>k. k \<le> n \<and>
              (case out of
                 Aborted s' \<Rightarrow> evs = [Assert False]
               | Waiting s' \<Rightarrow> k = n \<and>
                   evs = [Assert True, AtomicInc] @ concat (replicate k iteration)
               | Returned r s' \<Rightarrow> r = (0 < k) \<and>
                   evs = [Assert True, AtomicInc] @ concat (replicate k iteration) @
                     [Cond False, AtomicDec]) \<and>
              (case out of
                 Aborted s' \<Rightarrow> world s' = world s
               | Waiting s' \<Rightarrow> world s' = (pass ^^ k) (world s) \<and>
                   (\<forall>j<k. fst (cond ((pass ^^ j) (world s))))
               | Returned r s' \<Rightarrow> world s' = snd (cond ((pass ^^ k) (world s))) \<and>
                   (\<forall>j<k. fst (cond ((pass ^^ j) (world s)))) \<and>
                   \<not> fst (cond ((pass ^^ k) (world s))))) \<and>
            (ctx = None \<longrightarrow> (\<forall>c. ContextRelease c \<notin> set evs \<and> ContextAcquire c \<notin> set evs))"
proof -
  let ?g = "qemu_get_aio_context env"
  let ?out = "AIO_WAIT_WHILE env n ctx cond s"
  let ?evs = "emitted s ?out"
  let ?it = "case ctx of None \<Rightarrow> [Cond True, AioPoll ?g True]
     | Some c \<Rightarrow> [Cond True, ContextRelease c, AioPoll ?g True, ContextAcquire c]"
  let ?body = "\<lambda>w. case ctx of
                 None \<Rightarrow> aio_poll env ?g True w
               | Some c \<Rightarrow> aio_context_acquire env c
                   (aio_poll env ?g True (aio_context_release env c w))"
  let ?pass = "\<lambda>w. ?body (snd (cond w))"
  let ?shape = "\<lambda>k. case ?out of
                 Aborted s' \<Rightarrow> ?evs = [Assert False]
               | Waiting s' \<Rightarrow> k = n \<and>
                   ?evs = [Assert True, AtomicInc] @ concat (replicate k ?it)
               | Returned r s' \<Rightarrow> r = (0 < k) \<and>
                   ?evs = [Assert True, AtomicInc] @ concat (replicate k ?it) @
                     [Cond False, AtomicDec]"
  let ?state = "\<lambda>k. case ?out of
                 Aborted s' \<Rightarrow> world s' = world s
               | Waiting s' \<Rightarrow> world s' = (?pass ^^ k) (world s) \<and>
                   (\<forall>j<k. fst (cond ((?pass ^^ j) (world s))))
               | Returned r s' \<Rightarrow> world s' = snd (cond ((?pass ^^ k) (world s))) \<and>
                   (\<forall>j<k. fst (cond ((?pass ^^ j) (world s)))) \<and>
                   \<not> fst (cond ((?pass ^^ k) (world s)))"
  let ?quiet = "ctx = None \<longrightarrow>
      (\<forall>c. ContextRelease c \<notin> set ?evs \<and> ContextAcquire c \<notin> set ?evs)"
  have it: "\<And>k. rounds (foreign_block ?g ctx) k = concat (replicate k ?it)"
    by (simp add: rounds_concat foreign_block_def split: option.splits)
  have none: "\<And>k c. ctx = None \<Longrightarrow>
      ContextRelease c \<notin> set (rounds (foreign_block ?g ctx) k) \<and>
      ContextAcquire c \<notin> set (rounds (foreign_block ?g ctx) k)"
    using set_rounds [of "foreign_block ?g ctx"] by (auto simp: foreign_block_def)
  have pass: "\<And>w. ?pass w =
     (case ctx of
        None \<Rightarrow> aio_poll env ?g True (snd (cond w))
      | Some c \<Rightarrow> aio_context_acquire env c
          (aio_poll env ?g True (aio_context_release env c (snd (cond w)))))"
    by (rule refl)
  have "(\<exists>k. k \<le> n \<and> ?shape k \<and> ?state k) \<and> ?quiet"
  proof (cases "qemu_get_current_aio_context env (world s) = ?g")
    case False
    have abort: "?out = Aborted (log (Assert False) s)"
      using False by (simp add: AIO_WAIT_WHILE_foreign [OF assms] foreign_thread_path_abort)
    have evs: "?evs = [Assert False]"
      unfolding abort by (simp add: emitted_def)
    have "0 \<le> n \<and> ?shape 0 \<and> ?state 0"
      using evs unfolding abort by simp
    moreover have "?quiet"
      unfolding evs by simp
    ultimately show ?thesis by blast
  next
    case True
    from foreign_states [where pass = ?pass and n = n, OF assms True pass]
    consider (waiting) s' where "?out = Waiting s'"
        "?evs = Assert True # AtomicInc # rounds (foreign_block ?g ctx) n"
        "world s' = (?pass ^^ n) (world s)"
        "\<forall>j<n. fst (cond ((?pass ^^ j) (world s)))"
      | (returned) s' k where "?out = Returned (0 < k) s'" "k < n"
        "?evs = Assert True # AtomicInc # rounds (foreign_block ?g ctx) k @ [Cond False, AtomicDec]"
        "world s' = snd (cond ((?pass ^^ k) (world s)))"
        "\<forall>j<k. fst (cond ((?pass ^^ j) (world s)))"
        "\<not> fst (cond ((?pass ^^ k) (world s)))"
      by blast
    then show ?thesis
    proof cases
      case waiting
      have "?shape n"
        using waiting(1,2) by (simp add: it [symmetric])
      moreover have "?state n"
        unfolding waiting(1) using waiting(3,4) by simp
      moreover have "?quiet"
        unfolding waiting(2) using none [of _ n] by simp
      ultimately show ?thesis by blast
    next
      case returned
      have "?shape k"
        using returned(1,3) by (simp add: it [symmetric])
      moreover have "?state k"
        unfolding returned(1) using returned(4,5,6) by simp
      moreover have "?quiet"
        unfolding returned(3) using none [of _ k] by simp
      moreover have "k \<le> n"
        using returned(2) by simp
      ultimately show ?thesis by blast
    qed
  qed
  then show ?thesis
    unfolding Let_def .
qed

text \<open>
  The main loop thread waits on context 5 in the system that keeps a journal. The journal
  left by the call is the sequence of calls of two iterations: condition, release, poll,
  acquire, twice, then the evaluation that ended the loop.
\<close>

theorem foreign_path_iteration_steps_witness:
  "\<not> qemu_in_coroutine (journal_env 0) (world journal_machine) \<and>
   \<not> in_aio_context_home_thread (journal_env 0) 5 (world journal_machine) \<and>
   AIO_WAIT_WHILE (journal_env 0) 4 (Some 5) unfinished journal_machine =
     Returned True \<lparr>wait_obj = \<lparr>num_waiters = 0, wait_queue = []\<rparr>,
       world = [Cond True, ContextRelease 5, AioPoll 0 True, ContextAcquire 5,
         Cond True, ContextRelease 5, AioPoll 0 True, ContextAcquire 5, Cond False],
       trace = [Assert True, AtomicInc,
         Cond True, ContextRelease 5, AioPoll 0 True, ContextAcquire 5,
         Cond True, ContextRelease 5, AioPoll 0 True, ContextAcquire 5,
         Cond False, AtomicDec]\<rparr> \<and>
   (\<exists>k. k \<le> 4 \<and>
      emitted journal_machine
        (AIO_WAIT_WHILE (journal_env 0) 4 (Some 5) unfinished journal_machine) =
       [Assert True, AtomicInc] @
       concat (replicate k [Cond True, ContextRelease 5, AioPoll 0 True, ContextAcquire 5]) @
       [Cond False, AtomicDec] \<and>
      world (machine_of
        (AIO_WAIT_WHILE (journal_env 0) 4 (Some 5) unfinished journal_machine)) =
       snd (unfinished
         (((\<lambda>w. aio_context_acquire (journal_env 0) 5
              (aio_poll (journal_env 0) 0 True
                 (aio_context_release (journal_env 0) 5 (snd (unfinished w))))) ^^ k) [])))"
proof -
  have h1: "\<not> qemu_in_coroutine (journal_env 0) (world journal_machine)"
    by (simp add: journal_env_def)
  have h2: "\<forall>c. Some 5 = Some c \<longrightarrow>
      \<not> in_aio_context_home_thread (journal_env 0) c (world journal_machine)"
    by (simp add: journal_env_def)
  have h2': "\<not> in_aio_context_home_thread (journal_env 0) 5 (world journal_machine)"
    by (simp add: journal_env_def)
  have g: "qemu_get_aio_context (journal_env 0) = 0"
    by (simp add: journal_env_def)
  have w0: "world journal_machine = []"
    by (simp add: journal_machine_def)
  have run: "AIO_WAIT_WHILE (journal_env 0) 4 (Some 5) unfinished journal_machine =
     Returned True \<lparr>wait_obj = \<lparr>num_waiters = 0, wait_queue = []\<rparr>,
       world = [Cond True, ContextRelease 5, AioPoll 0 True, ContextAcquire 5,
         Cond True, ContextRelease 5, AioPoll 0 True, ContextAcquire 5, Cond False],
       trace = [Assert True, AtomicInc,
         Cond True, ContextRelease 5, AioPoll 0 True, ContextAcquire 5,
         Cond True, ContextRelease 5, AioPoll 0 True, ContextAcquire 5,
         Cond False, AtomicDec]\<rparr>"
    by code_simp
  have steps: "\<exists>k. k \<le> 4 \<and>
      emitted journal_machine
        (AIO_WAIT_WHILE (journal_env 0) 4 (Some 5) unfinished journal_machine) =
       [Assert True, AtomicInc] @
       concat (replicate k [Cond True, ContextRelease 5, AioPoll 0 True, ContextAcquire 5]) @
       [Cond False, AtomicDec] \<and>
      world (machine_of
        (AIO_WAIT_WHILE (journal_env 0) 4 (Some 5) unfinished journal_machine)) =
       snd (unfinished
         (((\<lambda>w. aio_context_acquire (journal_env 0) 5
              (aio_poll (journal_env 0) 0 True
                 (aio_context_release (journal_env 0) 5 (snd (unfinished w))))) ^^ k) []))"
    using foreign_path_iteration_steps [OF h1 h2, of 4 unfinished]
    unfolding Let_def g w0 option.case
    by (cases "AIO_WAIT_WHILE (journal_env 0) 4 (Some 5) unfinished journal_machine")
      (use run in auto)
  from h1 h2' run steps show ?thesis
    by (intro conjI)
qed

text \<open>
  Claim C6. The foreign-thread path starts with the assertion that the caller's current
  context is the global one. When the two are equal the assertion passes and the call goes
  on to the increment; when they differ the call aborts at the assertion, having changed
  neither the wait object nor anything else, and never waits.
\<close>

theorem foreign_path_asserts_main_context:
  assumes "\<not> qemu_in_coroutine env (world s)"
    and "\<forall>c. ctx = Some c \<longrightarrow> \<not> in_aio_context_home_thread env c (world s)"
  shows "let out = AIO_WAIT_WHILE env n ctx cond s; evs = emitted s out in
    (\<exists>b rest. evs = Assert b # rest) \<and>
    (qemu_get_current_aio_context env (world s) = qemu_get_aio_context env \<longrightarrow>
       (\<exists>rest. evs = Assert True # AtomicInc # rest) \<and> (\<forall>s'. out \<noteq> Aborted s')) \<and>
    (qemu_get_current_aio_context env (world s) \<noteq> qemu_get_aio_context env \<longrightarrow>
       out = Aborted (log (Assert False) s) \<and> evs = [Assert False] \<and>
       wait_obj (machine_of out) = wait_obj s \<and> world (machine_of out) = world s)"
proof -
  let ?out = "AIO_WAIT_WHILE env n ctx cond s"
  from foreign_run [OF assms, of n cond]
  have "(\<exists>b rest. emitted s ?out = Assert b # rest) \<and>
    (qemu_get_current_aio_context env (world s) = qemu_get_aio_context env \<longrightarrow>
       (\<exists>rest. emitted s ?out = Assert True # AtomicInc # rest) \<and> (\<forall>s'. ?out \<noteq> Aborted s')) \<and>
    (qemu_get_current_aio_context env (world s) \<noteq> qemu_get_aio_context env \<longrightarrow>
       ?out = Aborted (log (Assert False) s) \<and> emitted s ?out = [Assert False] \<and>
       wait_obj (machine_of ?out) = wait_obj s \<and> world (machine_of ?out) = world s)"
    by (elim disjE conjE exE) auto
  then show ?thesis
    unfolding Let_def .
qed

text \<open>
  The IOThread of context 7 waiting on context 9 trips the assertion; the main loop thread
  waiting on context 9 passes it.
\<close>

theorem foreign_path_asserts_main_context_witness:
  "\<not> qemu_in_coroutine (demo_env False 7) (world (demo_machine 2)) \<and>
   \<not> in_aio_context_home_thread (demo_env False 7) 9 (world (demo_machine 2)) \<and>
   qemu_get_current_aio_context (demo_env False 7) (world (demo_machine 2)) \<noteq>
     qemu_get_aio_context (demo_env False 7) \<and>
   AIO_WAIT_WHILE (demo_env False 7) 6 (Some 9) busy (demo_machine 2) =
     Aborted \<lparr>wait_obj = \<lparr>num_waiters = 0, wait_queue = []\<rparr>, world = 2,
       trace = [Assert False]\<rparr> \<and>
   qemu_get_current_aio_context (demo_env False 0) (world (demo_machine 2)) =
     qemu_get_aio_context (demo_env False 0) \<and>
   (\<exists>rest. emitted (demo_machine 2)
       (AIO_WAIT_WHILE (demo_env False 0) 6 (Some 9) busy (demo_machine 2)) =
     Assert True # AtomicInc # rest)"
proof -
  have h1: "\<not> qemu_in_coroutine (demo_env False 7) (world (demo_machine 2))"
    by (simp add: demo_env_def)
  have h2: "\<forall>c. Some 9 = Some c \<longrightarrow>
      \<not> in_aio_context_home_thread (demo_env False 7) c (world (demo_machine 2))"
    by (simp add: demo_env_def)
  have h3: "qemu_get_current_aio_context (demo_env False 7) (world (demo_machine 2)) \<noteq>
     qemu_get_aio_context (demo_env False 7)"
    by (simp add: demo_env_def)
  have k1: "\<not> qemu_in_coroutine (demo_env False 0) (world (demo_machine 2))"
    by (simp add: demo_env_def)
  have k2: "\<forall>c. Some 9 = Some c \<longrightarrow>
      \<not> in_aio_context_home_thread (demo_env False 0) c (world (demo_machine 2))"
    by (simp add: demo_env_def)
  have k3: "qemu_get_current_aio_context (demo_env False 0) (world (demo_machine 2)) =
     qemu_get_aio_context (demo_env False 0)"
    by (simp add: demo_env_def)
  have "AIO_WAIT_WHILE (demo_env False 7) 6 (Some 9) busy (demo_machine 2) =
     Aborted (log (Assert False) (demo_machine 2))"
    using foreign_path_asserts_main_context [OF h1 h2, of 6 busy] h3
    unfolding Let_def by blast
  then have abort: "AIO_WAIT_WHILE (demo_env False 7) 6 (Some 9) busy (demo_machine 2) =
     Aborted \<lparr>wait_obj = \<lparr>num_waiters = 0, wait_queue = []\<rparr>, world = 2,
       trace = [Assert False]\<rparr>"
    by (simp add: log_def demo_machine_def)
  have pass: "\<exists>rest. emitted (demo_machine 2)
       (AIO_WAIT_WHILE (demo_env False 0) 6 (Some 9) busy (demo_machine 2)) =
     Assert True # AtomicInc # rest"
    using foreign_path_asserts_main_context [OF k1 k2, of 6 busy] k3
    unfolding Let_def by blast
  from h1 h2 h3 abort k3 pass show ?thesis
    by simp
qed

subsection \<open>Path selection and the value returned\<close>







subsection \<open>The wait object\<close>

lemma eval_cond_put_wait_obj:
  "eval_cond cond (s\<lparr>wait_obj := x\<rparr>) =
     (fst (eval_cond cond s), (snd (eval_cond cond s))\<lparr>wait_obj := x\<rparr>)"
  by (simp add: eval_cond_def log_def split: prod.splits)

lemma poll_put_wait_obj:
  "poll env c b (s\<lparr>wait_obj := x\<rparr>) = (poll env c b s)\<lparr>wait_obj := x\<rparr>"
  by (simp add: poll_def log_def)

lemma home_thread_path_put_wait_obj:
  "home_thread_path env cond c n waited (s\<lparr>wait_obj := x\<rparr>) =
     put_wait_obj x (home_thread_path env cond c n waited s)"
proof (induction n arbitrary: s waited)
  case 0
  show ?case by simp
next
  case (Suc n)
  obtain b s1 where ev: "eval_cond cond s = (b, s1)"
    by (cases "eval_cond cond s")
  then have ev': "eval_cond cond (s\<lparr>wait_obj := x\<rparr>) = (b, s1\<lparr>wait_obj := x\<rparr>)"
    by (simp add: eval_cond_put_wait_obj)
  show ?case
  proof (cases b)
    case True
    with ev ev' Suc.IH [of True "poll env c True s1"] show ?thesis
      by (simp add: poll_put_wait_obj)
  next
    case False
    with ev ev' show ?thesis by simp
  qed
qed

text \<open>
  Claim C5. On the home-thread path the call only evaluates the condition and polls
  \<open>ctx\<close>: it makes no access to \<open>num_waiters\<close> or \<open>wait_queue\<close>, the wait object is
  unchanged at every point of the run, and the run does not depend on the contents of the
  wait object.
\<close>

theorem home_path_leaves_wait_object:
  assumes "\<not> qemu_in_coroutine env (world s)" and "ctx = Some c"
    and "in_aio_context_home_thread env c (world s)"
  shows "let out = AIO_WAIT_WHILE env n ctx cond s; evs = emitted s out in
    wait_obj (machine_of out) = wait_obj s \<and>
    set evs \<subseteq> {Cond True, Cond False, AioPoll c True} \<and>
    AtomicInc \<notin> set evs \<and> AtomicDec \<notin> set evs \<and> CoQueueWait \<notin> set evs \<and>
    (\<forall>x. AIO_WAIT_WHILE env n ctx cond (s\<lparr>wait_obj := x\<rparr>) = put_wait_obj x out)"
proof -
  let ?out = "AIO_WAIT_WHILE env n ctx cond s"
  let ?evs = "emitted s ?out"
  from home_run [OF assms, of n cond]
  have frame: "wait_obj (machine_of ?out) = wait_obj s \<and>
      set ?evs \<subseteq> {Cond True, Cond False, AioPoll c True}"
    using set_rounds [of "[AioPoll c True]"] by (elim disjE exE conjE) auto
  then have none: "AtomicInc \<notin> set ?evs \<and> AtomicDec \<notin> set ?evs \<and> CoQueueWait \<notin> set ?evs"
    by auto
  have "AIO_WAIT_WHILE env n ctx cond (s\<lparr>wait_obj := x\<rparr>) = put_wait_obj x ?out" for x
  proof -
    have "AIO_WAIT_WHILE env n ctx cond (s\<lparr>wait_obj := x\<rparr>) =
        home_thread_path env cond c n False (s\<lparr>wait_obj := x\<rparr>)"
      using assms by (intro AIO_WAIT_WHILE_home) simp_all
    then show ?thesis
      by (simp add: home_thread_path_put_wait_obj AIO_WAIT_WHILE_home [OF assms])
  qed
  with frame none show ?thesis
    unfolding Let_def by blast
qed

text \<open>
  The main loop thread waiting on its own context, once with an idle wait object and once
  with five waiters and a parked coroutine.
\<close>

theorem home_path_leaves_wait_object_witness:
  "\<not> qemu_in_coroutine (demo_env False 0) (world (demo_machine 1)) \<and>
   in_aio_context_home_thread (demo_env False 0) 0 (world (demo_machine 1)) \<and>
   AIO_WAIT_WHILE (demo_env False 0) 3 (Some 0) busy (demo_machine 1) =
     Returned True \<lparr>wait_obj = \<lparr>num_waiters = 0, wait_queue = []\<rparr>, world = 0,
       trace = [Cond True, AioPoll 0 True, Cond False]\<rparr> \<and>
   AIO_WAIT_WHILE (demo_env False 0) 3 (Some 0) busy
       ((demo_machine 1)\<lparr>wait_obj := \<lparr>num_waiters = 5, wait_queue = [3]\<rparr>\<rparr>) =
     Returned True \<lparr>wait_obj = \<lparr>num_waiters = 5, wait_queue = [3]\<rparr>, world = 0,
       trace = [Cond True, AioPoll 0 True, Cond False]\<rparr>"
proof -
  have h1: "\<not> qemu_in_coroutine (demo_env False 0) (world (demo_machine 1))"
    by (simp add: demo_env_def)
  have h2: "in_aio_context_home_thread (demo_env False 0) 0 (world (demo_machine 1))"
    by (simp add: demo_env_def)
  have run: "AIO_WAIT_WHILE (demo_env False 0) 3 (Some 0) busy (demo_machine 1) =
     Returned True \<lparr>wait_obj = \<lparr>num_waiters = 0, wait_queue = []\<rparr>, world = 0,
       trace = [Cond True, AioPoll 0 True, Cond False]\<rparr>"
    by code_simp
  have "AIO_WAIT_WHILE (demo_env False 0) 3 (Some 0) busy
       ((demo_machine 1)\<lparr>wait_obj := \<lparr>num_waiters = 5, wait_queue = [3]\<rparr>\<rparr>) =
     put_wait_obj \<lparr>num_waiters = 5, wait_queue = [3]\<rparr>
       (AIO_WAIT_WHILE (demo_env False 0) 3 (Some 0) busy (demo_machine 1))"
    using home_path_leaves_wait_object [OF h1 refl h2, of 3 busy]
    unfolding Let_def by blast
  then have "AIO_WAIT_WHILE (demo_env False 0) 3 (Some 0) busy
       ((demo_machine 1)\<lparr>wait_obj := \<lparr>num_waiters = 5, wait_queue = [3]\<rparr>\<rparr>) =
     Returned True \<lparr>wait_obj = \<lparr>num_waiters = 5, wait_queue = [3]\<rparr>, world = 0,
       trace = [Cond True, AioPoll 0 True, Cond False]\<rparr>"
    unfolding run by simp
  with h1 h2 run show ?thesis
    by (intro conjI)
qed




subsection \<open>Observing a call for longer\<close>

text \<open>
  The number of evaluations followed is only the length of the observation. Following a
  call for longer does not change a result it has reached, continues a call found waiting
  from the state it was found in, and a call found waiting with its condition false returns
  at the next evaluation.
\<close>

lemma coroutine_path_more_fuel:
  "coroutine_path env cond n waited s = Returned r s' \<Longrightarrow>
   coroutine_path env cond (n + m) waited s = Returned r s'"
proof (induction n arbitrary: s)
  case 0
  then show ?case by simp
next
  case (Suc n)
  obtain b s1 where ev: "eval_cond cond s = (b, s1)"
    by (cases "eval_cond cond s")
  with Suc show ?case
    by (cases b) simp_all
qed

lemma home_thread_path_more_fuel:
  "home_thread_path env cond c n waited s = Returned r s' \<Longrightarrow>
   home_thread_path env cond c (n + m) waited s = Returned r s'"
proof (induction n arbitrary: s waited)
  case 0
  then show ?case by simp
next
  case (Suc n)
  obtain b s1 where ev: "eval_cond cond s = (b, s1)"
    by (cases "eval_cond cond s")
  with Suc show ?case
    by (cases b) simp_all
qed

lemma foreign_wait_loop_more_fuel:
  "foreign_wait_loop env cond ctx n waited s = Returned r s' \<Longrightarrow>
   foreign_wait_loop env cond ctx (n + m) waited s = Returned r s'"
proof (induction n arbitrary: s waited)
  case 0
  then show ?case by simp
next
  case (Suc n)
  obtain b s1 where ev: "eval_cond cond s = (b, s1)"
    by (cases "eval_cond cond s")
  with Suc show ?case
    by (cases b) simp_all
qed

lemma AIO_WAIT_WHILE_more_fuel:
  assumes "AIO_WAIT_WHILE env n ctx cond s = Returned r s'"
  shows "AIO_WAIT_WHILE env (n + m) ctx cond s = Returned r s'"
proof -
  consider (co) "qemu_in_coroutine env (world s)"
    | (home) c where "\<not> qemu_in_coroutine env (world s)" "ctx = Some c"
        "in_aio_context_home_thread env c (world s)"
    | (foreign) "\<not> qemu_in_coroutine env (world s)"
        "\<forall>c. ctx = Some c \<longrightarrow> \<not> in_aio_context_home_thread env c (world s)"
    by blast
  then show ?thesis
  proof cases
    case co
    with assms show ?thesis
      by (simp add: AIO_WAIT_WHILE_coroutine coroutine_path_more_fuel)
  next
    case home
    with assms show ?thesis
      by (simp add: AIO_WAIT_WHILE_home home_thread_path_more_fuel)
  next
    case foreign
    let ?s0 = "atomic_inc (log (Assert True) s)"
    from assms have ftp: "foreign_thread_path env cond ctx n False s = Returned r s'"
      by (simp add: AIO_WAIT_WHILE_foreign [OF foreign])
    then have cur: "qemu_get_current_aio_context env (world s) = qemu_get_aio_context env"
      by (auto simp: foreign_thread_path_def split: if_splits)
    with ftp obtain s1 where "foreign_wait_loop env cond ctx n False ?s0 = Returned r s1"
      and "s' = atomic_dec s1"
      by (auto simp: foreign_thread_path_def split: outcome.splits)
    with cur foreign_wait_loop_more_fuel [of env cond ctx n False ?s0 r s1 m] show ?thesis
      by (simp add: AIO_WAIT_WHILE_foreign [OF foreign] foreign_thread_path_def)
  qed
qed

lemma coroutine_path_resume:
  "coroutine_path env cond n waited s = Waiting s' \<Longrightarrow>
   coroutine_path env cond (n + m) waited s = coroutine_path env cond m waited s'"
proof (induction n arbitrary: s)
  case 0
  then show ?case by simp
next
  case (Suc n)
  obtain b s1 where ev: "eval_cond cond s = (b, s1)"
    by (cases "eval_cond cond s")
  with Suc show ?case
    by (cases b) simp_all
qed

lemma home_thread_path_resume:
  "home_thread_path env cond c n waited s = Waiting s' \<Longrightarrow>
   home_thread_path env cond c (n + m) waited s =
     home_thread_path env cond c m (waited \<or> 0 < n) s'"
proof (induction n arbitrary: s waited)
  case 0
  then show ?case by simp
next
  case (Suc n)
  obtain b s1 where ev: "eval_cond cond s = (b, s1)"
    by (cases "eval_cond cond s")
  with Suc.prems Suc.IH [of True "poll env c True s1"] show ?case
    by (cases b) simp_all
qed

lemma foreign_wait_loop_resume:
  "foreign_wait_loop env cond ctx n waited s = Waiting s' \<Longrightarrow>
   foreign_wait_loop env cond ctx (n + m) waited s =
     foreign_wait_loop env cond ctx m (waited \<or> 0 < n) s'"
proof (induction n arbitrary: s waited)
  case 0
  then show ?case by simp
next
  case (Suc n)
  obtain b s1 where ev: "eval_cond cond s = (b, s1)"
    by (cases "eval_cond cond s")
  with Suc.prems Suc.IH [of True "foreign_iteration env ctx s1"] show ?case
    by (cases b) simp_all
qed

lemma eval_cond_false:
  "\<not> fst (cond (world s)) \<Longrightarrow> \<exists>s1. eval_cond cond s = (False, s1)"
  by (cases "cond (world s)") (simp add: eval_cond_def)

lemma AIO_WAIT_WHILE_returns_when_false:
  assumes "AIO_WAIT_WHILE env n ctx cond s = Waiting s'" and "\<not> fst (cond (world s'))"
  shows "\<exists>r s''. AIO_WAIT_WHILE env (Suc n) ctx cond s = Returned r s''"
proof -
  from eval_cond_false [where cond = cond and s = s', OF assms(2)] obtain s1 where ev: "eval_cond cond s' = (False, s1)" ..
  consider (co) "qemu_in_coroutine env (world s)"
    | (home) c where "\<not> qemu_in_coroutine env (world s)" "ctx = Some c"
        "in_aio_context_home_thread env c (world s)"
    | (foreign) "\<not> qemu_in_coroutine env (world s)"
        "\<forall>c. ctx = Some c \<longrightarrow> \<not> in_aio_context_home_thread env c (world s)"
    by blast
  then show ?thesis
  proof cases
    case co
    with assms(1) have "coroutine_path env cond n False s = Waiting s'"
      by (simp add: AIO_WAIT_WHILE_coroutine)
    from coroutine_path_resume [OF this, where m = "Suc 0"]
    have "coroutine_path env cond (Suc n) False s = coroutine_path env cond (Suc 0) False s'"
      by (simp only: add_Suc_right add_0_right)
    also have "\<dots> = Returned False s1"
      using ev by simp
    finally have r: "coroutine_path env cond (Suc n) False s = Returned False s1" .
    show ?thesis
      unfolding AIO_WAIT_WHILE_coroutine [OF co] r by blast
  next
    case home
    with assms(1) have "home_thread_path env cond c n False s = Waiting s'"
      by (simp add: AIO_WAIT_WHILE_home)
    from home_thread_path_resume [OF this, where m = "Suc 0"]
    have "home_thread_path env cond c (Suc n) False s =
        home_thread_path env cond c (Suc 0) (False \<or> 0 < n) s'"
      by (simp only: add_Suc_right add_0_right)
    also have "\<dots> = Returned (False \<or> 0 < n) s1"
      using ev by simp
    finally have r: "home_thread_path env cond c (Suc n) False s =
        Returned (False \<or> 0 < n) s1" .
    show ?thesis
      unfolding AIO_WAIT_WHILE_home [OF home] r by blast
  next
    case foreign
    let ?s0 = "atomic_inc (log (Assert True) s)"
    from assms(1) have ftp: "foreign_thread_path env cond ctx n False s = Waiting s'"
      by (simp add: AIO_WAIT_WHILE_foreign [OF foreign])
    then have cur: "qemu_get_current_aio_context env (world s) = qemu_get_aio_context env"
      by (auto simp: foreign_thread_path_def split: if_splits)
    with ftp have "foreign_wait_loop env cond ctx n False ?s0 = Waiting s'"
      by (auto simp: foreign_thread_path_def split: outcome.splits)
    from foreign_wait_loop_resume [OF this, where m = "Suc 0"]
    have "foreign_wait_loop env cond ctx (Suc n) False ?s0 =
        foreign_wait_loop env cond ctx (Suc 0) (False \<or> 0 < n) s'"
      by (simp only: add_Suc_right add_0_right)
    also have "\<dots> = Returned (False \<or> 0 < n) s1"
      using ev by simp
    finally have "foreign_thread_path env cond ctx (Suc n) False s =
        Returned (False \<or> 0 < n) (atomic_dec s1)"
      using cur by (simp only: foreign_thread_path_def refl if_True outcome.case)
    then show ?thesis
      unfolding AIO_WAIT_WHILE_foreign [OF foreign] by blast
  qed
qed

section \<open>Properties of aio_wait_kick\<close>

lemma co_continue_fields:
  "resumed (co_continue cond_of t st) = resumed st"
  "shared (co_continue cond_of t st) = shared st"
  "main_loop_kicked (co_continue cond_of t st) = main_loop_kicked st"
  "probes (co_continue cond_of t st) = probes st @ [(t, cond_of t (shared st))]"
  "wait_queue (coordinator (co_continue cond_of t st)) =
     wait_queue (coordinator st) @ (if cond_of t (shared st) then [t] else [])"
  "finished (co_continue cond_of t st) =
     finished st @ (if cond_of t (shared st) then [] else [t])"
  "num_waiters (coordinator (co_continue cond_of t st)) =
     num_waiters (coordinator st) - (if cond_of t (shared st) then 0 else 1)"
  by (simp_all add: co_continue_def co_suspend_def Let_def)

lemma fold_co_continue:
  "let st' = fold (co_continue cond_of) ts st; w = shared st in
     resumed st' = resumed st \<and> shared st' = w \<and>
     main_loop_kicked st' = main_loop_kicked st \<and>
     probes st' = probes st @ map (\<lambda>t. (t, cond_of t w)) ts \<and>
     wait_queue (coordinator st') = wait_queue (coordinator st) @ filter (\<lambda>t. cond_of t w) ts \<and>
     finished st' = finished st @ filter (\<lambda>t. \<not> cond_of t w) ts \<and>
     num_waiters (coordinator st') =
       num_waiters (coordinator st) - of_nat (length (filter (\<lambda>t. \<not> cond_of t w) ts))"
proof (induction ts arbitrary: st)
  case Nil
  show ?case by (simp add: Let_def)
next
  case (Cons t ts)
  from Cons.IH [of "co_continue cond_of t st"] show ?case
    by (simp add: Let_def co_continue_fields)
qed

lemma schedule_pass_fields:
  "let st' = schedule_pass cond_of st; w = shared st; ts = resumed st in
     resumed st' = [] \<and> shared st' = w \<and>
     main_loop_kicked st' = main_loop_kicked st \<and>
     probes st' = probes st @ map (\<lambda>t. (t, cond_of t w)) ts \<and>
     wait_queue (coordinator st') = wait_queue (coordinator st) @ filter (\<lambda>t. cond_of t w) ts \<and>
     finished st' = finished st @ filter (\<lambda>t. \<not> cond_of t w) ts \<and>
     num_waiters (coordinator st') =
       num_waiters (coordinator st) - of_nat (length (filter (\<lambda>t. \<not> cond_of t w) ts))"
  using fold_co_continue [of cond_of "resumed st" "st\<lparr>resumed := []\<rparr>"]
  by (simp add: schedule_pass_def Let_def)

lemma unat_minus_count:
  fixes a :: "32 word"
  assumes "k \<le> unat a"
  shows "unat (a - of_nat k) = unat a - k"
proof -
  have "unat a < 2 ^ 32"
    using unsigned_less [of a] by simp
  with assms have "k < 2 ^ 32"
    by simp
  then have k: "unat (of_nat k :: 32 word) = k"
    by (simp add: unat_of_nat)
  with assms have "(of_nat k :: 32 word) \<le> a"
    by (simp add: word_le_nat_alt)
  then show ?thesis
    by (simp add: unat_sub k)
qed

lemma schedule_pass_waiters_cover:
  assumes "waiters_cover st" and "wait_queue (coordinator st) = []"
  shows "waiters_cover (schedule_pass cond_of st)"
proof -
  let ?w = "shared st"
  let ?ts = "resumed st"
  let ?st' = "schedule_pass cond_of st"
  let ?gone = "length (filter (\<lambda>t. \<not> cond_of t ?w) ?ts)"
  from schedule_pass_fields [of cond_of st] assms(2)
  have f: "resumed ?st' = []"
    "wait_queue (coordinator ?st') = filter (\<lambda>t. cond_of t ?w) ?ts"
    "num_waiters (coordinator ?st') = num_waiters (coordinator st) - of_nat ?gone"
    by (simp_all add: Let_def)
  have len: "length ?ts \<le> unat (num_waiters (coordinator st))"
    using assms by (simp add: waiters_cover_def)
  have split: "length (filter (\<lambda>t. cond_of t ?w) ?ts) + ?gone = length ?ts"
    using sum_length_filter_compl [of "\<lambda>t. cond_of t ?w" ?ts] by simp
  with len have "?gone \<le> unat (num_waiters (coordinator st))"
    by simp
  then have "unat (num_waiters (coordinator ?st')) = unat (num_waiters (coordinator st)) - ?gone"
    by (simp add: f(3) unat_minus_count)
  with len split show ?thesis
    by (simp add: waiters_cover_def f(1,2))
qed

lemma aio_wait_kick_fires:
  assumes "fast_path \<longrightarrow> waiters_cover st"
  shows "aio_wait_kick fast_path st =
     st\<lparr>coordinator := (coordinator st)\<lparr>wait_queue := []\<rparr>,
        resumed := resumed st @ wait_queue (coordinator st),
        main_loop_kicked := True\<rparr> \<or>
     (aio_wait_kick fast_path st = st \<and> wait_queue (coordinator st) = [] \<and> resumed st = [])"
proof (cases "fast_path \<and> num_waiters (coordinator st) = 0")
  case False
  then have "aio_wait_kick fast_path st =
     st\<lparr>coordinator := (coordinator st)\<lparr>wait_queue := []\<rparr>,
        resumed := resumed st @ wait_queue (coordinator st),
        main_loop_kicked := True\<rparr>"
    unfolding aio_wait_kick_def by (simp only: if_False)
  then show ?thesis ..
next
  case True
  with assms have "wait_queue (coordinator st) = [] \<and> resumed st = []"
    by (simp add: waiters_cover_def)
  with True show ?thesis
    by (simp add: aio_wait_kick_def)
qed

text \<open>
  Claim C7. One call of \<^verbatim>\<open>aio_wait_kick\<close> makes every coroutine parked on the wait queue
  runnable, in the order they were parked, and empties the queue. In the scheduling pass that
  follows, each of them evaluates its own condition once: those whose condition still holds
  are parked again, the others leave their loop. The count of waiters covers the parked
  coroutines before and after. With no coroutine parked the call changes neither the wait
  object nor the runnable coroutines. When the implementation skips the work on a zero
  count, this needs the count to cover the parked coroutines, as the increment before
  parking ensures.
\<close>

theorem aio_wait_kick_broadcast:
  assumes "fast_path \<longrightarrow> waiters_cover st"
  shows "let q = wait_queue (coordinator st);
             kicked = aio_wait_kick fast_path st;
             after = schedule_pass cond_of kicked;
             w = shared st
         in resumed kicked = resumed st @ q \<and>
            wait_queue (coordinator kicked) = [] \<and>
            num_waiters (coordinator kicked) = num_waiters (coordinator st) \<and>
            finished kicked = finished st \<and> probes kicked = probes st \<and> shared kicked = w \<and>
            probes after = probes st @ map (\<lambda>t. (t, cond_of t w)) (resumed st @ q) \<and>
            wait_queue (coordinator after) = filter (\<lambda>t. cond_of t w) (resumed st @ q) \<and>
            finished after = finished st @ filter (\<lambda>t. \<not> cond_of t w) (resumed st @ q) \<and>
            resumed after = [] \<and>
            (waiters_cover st \<longrightarrow> waiters_cover kicked \<and> waiters_cover after) \<and>
            (q = [] \<longrightarrow> coordinator kicked = coordinator st \<and> resumed kicked = resumed st)"
proof -
  let ?q = "wait_queue (coordinator st)"
  let ?kicked = "aio_wait_kick fast_path st"
  let ?after = "schedule_pass cond_of ?kicked"
  let ?w = "shared st"
  have k: "resumed ?kicked = resumed st @ ?q \<and>
      wait_queue (coordinator ?kicked) = [] \<and>
      num_waiters (coordinator ?kicked) = num_waiters (coordinator st) \<and>
      finished ?kicked = finished st \<and> probes ?kicked = probes st \<and> shared ?kicked = ?w"
    using aio_wait_kick_fires [OF assms] by (elim disjE conjE) simp_all
  have a: "probes ?after = probes st @ map (\<lambda>t. (t, cond_of t ?w)) (resumed st @ ?q) \<and>
      wait_queue (coordinator ?after) = filter (\<lambda>t. cond_of t ?w) (resumed st @ ?q) \<and>
      finished ?after = finished st @ filter (\<lambda>t. \<not> cond_of t ?w) (resumed st @ ?q) \<and>
      resumed ?after = []"
    using schedule_pass_fields [of cond_of ?kicked] k by (simp add: Let_def)
  have c: "waiters_cover ?kicked \<and> waiters_cover ?after" if "waiters_cover st"
  proof -
    from that k have ck: "waiters_cover ?kicked"
      by (simp add: waiters_cover_def)
    with k schedule_pass_waiters_cover [of ?kicked cond_of] show ?thesis
      by simp
  qed
  have e: "coordinator ?kicked = coordinator st \<and> resumed ?kicked = resumed st" if "?q = []"
    using aio_wait_kick_fires [OF assms] that by (elim disjE conjE) simp_all
  from k a c e show ?thesis
    unfolding Let_def by blast
qed

text \<open>
  Three parked coroutines are all resumed by one call; coroutine 2 parks again and the
  other two finish.
\<close>

theorem aio_wait_kick_broadcast_witness:
  "waiters_cover three_parked \<and>
   aio_wait_kick True three_parked =
     \<lparr>coordinator = \<lparr>num_waiters = 3, wait_queue = []\<rparr>,
      resumed = [1, 2, 3], finished = [], probes = [], main_loop_kicked = True, shared = ()\<rparr> \<and>
   schedule_pass (\<lambda>t w. t = 2) (aio_wait_kick True three_parked) =
     \<lparr>coordinator = \<lparr>num_waiters = 1, wait_queue = [2]\<rparr>,
      resumed = [], finished = [1, 3], probes = [(1, False), (2, True), (3, False)],
      main_loop_kicked = True, shared = ()\<rparr> \<and>
   waiters_cover (schedule_pass (\<lambda>t w. t = 2) (aio_wait_kick True three_parked))"
proof -
  have h: "waiters_cover three_parked"
    by (simp add: waiters_cover_def three_parked_def)
  have k: "aio_wait_kick True three_parked =
     \<lparr>coordinator = \<lparr>num_waiters = 3, wait_queue = []\<rparr>,
      resumed = [1, 2, 3], finished = [], probes = [], main_loop_kicked = True, shared = ()\<rparr>"
    by (simp add: aio_wait_kick_def three_parked_def)
  have p: "schedule_pass (\<lambda>t w. t = 2) (aio_wait_kick True three_parked) =
     \<lparr>coordinator = \<lparr>num_waiters = 1, wait_queue = [2]\<rparr>,
      resumed = [], finished = [1, 3], probes = [(1, False), (2, True), (3, False)],
      main_loop_kicked = True, shared = ()\<rparr>"
    by code_simp
  have "waiters_cover (schedule_pass (\<lambda>t w. t = 2) (aio_wait_kick True three_parked))"
    using aio_wait_kick_broadcast [of True three_parked "\<lambda>t w. t = 2"] h
    unfolding Let_def by blast
  with h k p show ?thesis
    by (intro conjI)
qed

section \<open>Properties of aio_wait_bh_oneshot\<close>

lemma wait_cbs_append [simp]: "wait_cbs (xs @ ys) = wait_cbs xs @ wait_cbs ys"
  by (induction xs rule: wait_cbs.induct) simp_all

lemma fold_run_bh:
  "fold (run_bh c) bs w =
     w\<lparr>executed := executed w @ map (Pair c) (wait_cbs bs),
       done_flag := done_flag w \<or> wait_cbs bs \<noteq> [],
       kicks := kicks w + length (wait_cbs bs)\<rparr>"
proof (induction bs arbitrary: w)
  case Nil
  show ?case by simp
next
  case (Cons b bs)
  show ?case
    by (cases b) (simp_all add: Cons.IH)
qed

lemma run_iteration_eq:
  "run_iteration c w =
     w\<lparr>bh_list := (bh_list w)(c := []),
       executed := executed w @ map (Pair c) (wait_cbs (bh_list w c)),
       done_flag := done_flag w \<or> wait_cbs (bh_list w c) \<noteq> [],
       kicks := kicks w + length (wait_cbs (bh_list w c))\<rparr>"
  by (simp add: run_iteration_def fold_run_bh)

lemma held_run_iteration [simp]: "held (run_iteration c w) = held w"
  by (simp add: run_iteration_eq)

lemma polls_run_iteration [simp]: "polls (run_iteration c w) = polls w"
  by (simp add: run_iteration_eq)

lemma run_iteration_pending_other:
  "wrapper_pending ctx cb E w \<Longrightarrow> c \<noteq> ctx \<Longrightarrow> wrapper_pending ctx cb E (run_iteration c w)"
  by (simp add: wrapper_pending_def run_iteration_eq)

lemma run_iteration_pending_own:
  "wrapper_pending ctx cb E w \<Longrightarrow> wrapper_ran ctx cb E (run_iteration ctx w)"
  by (simp add: wrapper_pending_def wrapper_ran_def no_wait_bh_def run_iteration_eq)

lemma run_iteration_ran:
  "wrapper_ran ctx cb E w \<Longrightarrow> wrapper_ran ctx cb E (run_iteration c w)"
  by (simp add: wrapper_ran_def no_wait_bh_def run_iteration_eq)

lemma run_iteration_progress:
  "wrapper_pending ctx cb E w \<or> wrapper_ran ctx cb E w \<Longrightarrow>
   wrapper_pending ctx cb E (run_iteration c w) \<or> wrapper_ran ctx cb E (run_iteration c w)"
  using run_iteration_pending_other [of ctx cb E w c] run_iteration_pending_own [of ctx cb E w]
    run_iteration_ran [of ctx cb E w c]
  by (cases "c = ctx") auto

lemma held_io_step [simp]: "held (io_step c w) = held w"
  by (simp add: io_step_def)

lemma polls_io_step [simp]: "polls (io_step c w) = polls w"
  by (simp add: io_step_def)

lemma io_step_progress:
  "wrapper_pending ctx cb E w \<or> wrapper_ran ctx cb E w \<Longrightarrow>
   wrapper_pending ctx cb E (io_step c w) \<or> wrapper_ran ctx cb E (io_step c w)"
  using run_iteration_progress [of ctx cb E w c] by (simp add: io_step_def)

lemma io_step_ran: "wrapper_ran ctx cb E w \<Longrightarrow> wrapper_ran ctx cb E (io_step c w)"
  by (simp add: io_step_def run_iteration_ran)

lemma fold_io_step_fields [simp]:
  "held (fold io_step cs w) = held w" "polls (fold io_step cs w) = polls w"
  by (induction cs arbitrary: w) simp_all

lemma fold_io_step_progress:
  "wrapper_pending ctx cb E w \<or> wrapper_ran ctx cb E w \<Longrightarrow>
   wrapper_pending ctx cb E (fold io_step cs w) \<or> wrapper_ran ctx cb E (fold io_step cs w)"
proof (induction cs arbitrary: w)
  case Nil
  then show ?case by simp
next
  case (Cons c cs)
  from Cons.IH [OF io_step_progress [OF Cons.prems]] show ?case
    by simp
qed

lemma fold_io_step_ran:
  "wrapper_ran ctx cb E w \<Longrightarrow> wrapper_ran ctx cb E (fold io_step cs w)"
  by (induction cs arbitrary: w) (simp_all add: io_step_ran)

lemma fold_io_step_runs:
  assumes "wrapper_pending ctx cb E w" and "ctx \<in> set cs" and "ctx \<noteq> main_ctx"
    and "held w ctx = 0"
  shows "wrapper_ran ctx cb E (fold io_step cs w)"
  using assms
proof (induction cs arbitrary: w)
  case Nil
  then show ?case by simp
next
  case (Cons c cs)
  show ?case
  proof (cases "c = ctx")
    case True
    with Cons.prems have "wrapper_ran ctx cb E (io_step c w)"
      by (simp add: io_step_def run_iteration_pending_own)
    then show ?thesis
      by (simp add: fold_io_step_ran)
  next
    case False
    with Cons.prems have "wrapper_pending ctx cb E (io_step c w)"
      by (simp add: io_step_def run_iteration_pending_other)
    moreover from False Cons.prems have "ctx \<in> set cs"
      by simp
    ultimately show ?thesis
      using Cons.IH [of "io_step c w"] Cons.prems(3,4) by simp
  qed
qed

lemma pending_not_done: "wrapper_pending ctx cb E w \<Longrightarrow> \<not> done_flag w"
  by (simp add: wrapper_pending_def)

lemma ran_done: "wrapper_ran ctx cb E w \<Longrightarrow> done_flag w"
  by (simp add: wrapper_ran_def)

lemma inv_polls_update [simp]:
  "wrapper_pending ctx cb E (w\<lparr>polls := x\<rparr>) = wrapper_pending ctx cb E w"
  "wrapper_ran ctx cb E (w\<lparr>polls := x\<rparr>) = wrapper_ran ctx cb E w"
  by (simp_all add: wrapper_pending_def wrapper_ran_def no_wait_bh_def)

lemma inv_held_update [simp]:
  "wrapper_pending ctx cb E (w\<lparr>held := h\<rparr>) = wrapper_pending ctx cb E w"
  "wrapper_ran ctx cb E (w\<lparr>held := h\<rparr>) = wrapper_ran ctx cb E w"
  by (simp_all add: wrapper_pending_def wrapper_ran_def no_wait_bh_def)

lemma aio_poll_oneshot:
  "aio_poll (oneshot_env sched) c b w =
     run_iteration c ((fold io_step (sched (polls w)) w)\<lparr>polls := Suc (polls w)\<rparr>)"
  by (simp add: oneshot_env_def others_run_def)

lemma aio_poll_progress:
  assumes "wrapper_pending ctx cb E w \<or> wrapper_ran ctx cb E w"
  shows "wrapper_pending ctx cb E (aio_poll (oneshot_env sched) c b w) \<or>
         wrapper_ran ctx cb E (aio_poll (oneshot_env sched) c b w)"
proof -
  let ?w1 = "(fold io_step (sched (polls w)) w)\<lparr>polls := Suc (polls w)\<rparr>"
  from fold_io_step_progress [OF assms, of "sched (polls w)"]
  have "wrapper_pending ctx cb E ?w1 \<or> wrapper_ran ctx cb E ?w1"
    by simp
  from run_iteration_progress [OF this, of c] show ?thesis
    by (simp add: aio_poll_oneshot)
qed

lemma aio_poll_own:
  assumes "wrapper_pending ctx cb E w"
  shows "wrapper_ran ctx cb E (aio_poll (oneshot_env sched) ctx b w)"
proof -
  let ?w1 = "(fold io_step (sched (polls w)) w)\<lparr>polls := Suc (polls w)\<rparr>"
  from fold_io_step_progress [of ctx cb E w "sched (polls w)"] assms
  have "wrapper_pending ctx cb E ?w1 \<or> wrapper_ran ctx cb E ?w1"
    by simp
  then have "wrapper_ran ctx cb E (run_iteration ctx ?w1)"
    using run_iteration_pending_own [of ctx cb E ?w1] run_iteration_ran [of ctx cb E ?w1 ctx]
    by blast
  then show ?thesis
    by (simp add: aio_poll_oneshot)
qed

lemma aio_poll_scheduled:
  assumes "wrapper_pending ctx cb E w" and "ctx \<in> set (sched (polls w))"
    and "ctx \<noteq> main_ctx" and "held w ctx = 0"
  shows "wrapper_ran ctx cb E (aio_poll (oneshot_env sched) c b w)"
proof -
  let ?w1 = "(fold io_step (sched (polls w)) w)\<lparr>polls := Suc (polls w)\<rparr>"
  from fold_io_step_runs [OF assms] have "wrapper_ran ctx cb E ?w1"
    by simp
  from run_iteration_ran [OF this, of c] show ?thesis
    by (simp add: aio_poll_oneshot)
qed

lemma held_aio_poll [simp]: "held (aio_poll (oneshot_env sched) c b w) = held w"
  by (simp add: aio_poll_oneshot)

lemma eval_cond_not_done:
  "eval_cond not_done s = (\<not> done_flag (world s), log (Cond (\<not> done_flag (world s))) s)"
  by (simp add: eval_cond_def not_done_def log_def)

lemma world_poll [simp]: "world (poll env c b s) = aio_poll env c b (world s)"
  by (simp add: poll_def)

lemma oneshot_env_fields [simp]:
  "qemu_in_coroutine (oneshot_env sched) w = False"
  "in_aio_context_home_thread (oneshot_env sched) c w = (c = main_ctx)"
  "qemu_get_current_aio_context (oneshot_env sched) w = main_ctx"
  "qemu_get_aio_context (oneshot_env sched) = main_ctx"
  "aio_context_release (oneshot_env sched) c w = w\<lparr>held := (held w)(c := held w c - 1)\<rparr>"
  "aio_context_acquire (oneshot_env sched) c w = w\<lparr>held := (held w)(c := Suc (held w c))\<rparr>"
  by (simp_all add: oneshot_env_def)

lemma world_foreign_iteration:
  "world (foreign_iteration (oneshot_env sched) (Some c) s) =
     (let w1 = (world s)\<lparr>held := (held (world s))(c := held (world s) c - 1)\<rparr>;
          w2 = aio_poll (oneshot_env sched) main_ctx True w1
      in w2\<lparr>held := (held w2)(c := Suc (held w2 c))\<rparr>)"
  by (simp add: foreign_iteration_def context_release_def context_acquire_def Let_def)

lemma world_log_cond [simp]: "world (snd (eval_cond not_done s)) = world s"
  by (simp add: eval_cond_not_done)

lemma home_oneshot_safe:
  assumes "wrapper_pending ctx cb E (world s) \<or> wrapper_ran ctx cb E (world s)"
  shows "case home_thread_path (oneshot_env sched) not_done c n waited s of
           Returned r s' \<Rightarrow> wrapper_ran ctx cb E (world s')
         | Waiting s' \<Rightarrow> wrapper_pending ctx cb E (world s') \<or> wrapper_ran ctx cb E (world s')
         | Aborted s' \<Rightarrow> False"
  using assms
proof (induction n arbitrary: s waited)
  case 0
  then show ?case by simp
next
  case (Suc n)
  show ?case
  proof (cases "done_flag (world s)")
    case True
    with Suc.prems have "wrapper_ran ctx cb E (world s)"
      using pending_not_done by blast
    with True show ?thesis
      by (simp add: eval_cond_not_done)
  next
    case False
    let ?s1 = "poll (oneshot_env sched) c True (log (Cond True) s)"
    have "wrapper_pending ctx cb E (world ?s1) \<or> wrapper_ran ctx cb E (world ?s1)"
      using aio_poll_progress [OF Suc.prems, of sched c True] by simp
    from Suc.IH [OF this, of True] False show ?thesis
      by (simp add: eval_cond_not_done)
  qed
qed

lemma foreign_oneshot_safe:
  assumes "wrapper_pending ctx cb E (world s) \<or> wrapper_ran ctx cb E (world s)"
  shows "case foreign_wait_loop (oneshot_env sched) not_done (Some c) n waited s of
           Returned r s' \<Rightarrow> wrapper_ran ctx cb E (world s')
         | Waiting s' \<Rightarrow> wrapper_pending ctx cb E (world s') \<or> wrapper_ran ctx cb E (world s')
         | Aborted s' \<Rightarrow> False"
  using assms
proof (induction n arbitrary: s waited)
  case 0
  then show ?case by simp
next
  case (Suc n)
  show ?case
  proof (cases "done_flag (world s)")
    case True
    with Suc.prems have "wrapper_ran ctx cb E (world s)"
      using pending_not_done by blast
    with True show ?thesis
      by (simp add: eval_cond_not_done)
  next
    case False
    let ?s1 = "foreign_iteration (oneshot_env sched) (Some c) (log (Cond True) s)"
    let ?w1 = "(world s)\<lparr>held := (held (world s))(c := held (world s) c - 1)\<rparr>"
    have "wrapper_pending ctx cb E ?w1 \<or> wrapper_ran ctx cb E ?w1"
      using Suc.prems by simp
    from aio_poll_progress [OF this, of sched main_ctx True]
    have "wrapper_pending ctx cb E (world ?s1) \<or> wrapper_ran ctx cb E (world ?s1)"
      by (simp add: world_foreign_iteration Let_def)
    from Suc.IH [OF this, of True] False show ?thesis
      by (simp add: eval_cond_not_done)
  qed
qed

lemma home_oneshot_returns:
  assumes "wrapper_pending ctx cb E (world s)"
  shows "\<exists>s'. home_thread_path (oneshot_env sched) not_done ctx (Suc (Suc m)) waited s =
           Returned True s' \<and>
         wrapper_ran ctx cb E (world s') \<and> held (world s') = held (world s)"
proof -
  let ?s1 = "poll (oneshot_env sched) ctx True (log (Cond True) s)"
  have ran: "wrapper_ran ctx cb E (world ?s1)"
    using aio_poll_own [OF assms, of sched True] by simp
  then have "done_flag (world ?s1)"
    by (rule ran_done)
  with pending_not_done [OF assms]
  have "home_thread_path (oneshot_env sched) not_done ctx (Suc (Suc m)) waited s =
      Returned True (log (Cond False) ?s1)"
    by (simp add: eval_cond_not_done)
  moreover have "held (world (log (Cond False) ?s1)) = held (world s)"
    by simp
  ultimately show ?thesis
    using ran by simp
qed

lemma polls_aio_poll [simp]: "polls (aio_poll (oneshot_env sched) c b w) = Suc (polls w)"
  by (simp add: aio_poll_oneshot)

lemma foreign_oneshot_returns:
  assumes "wrapper_pending ctx cb E (world s)" and "ctx \<noteq> main_ctx"
    and "held (world s) ctx = 1" and "ctx \<in> set (sched (polls (world s) + k))"
  shows "\<exists>s'. foreign_wait_loop (oneshot_env sched) not_done (Some ctx) (Suc (Suc (k + m))) waited s =
           Returned True s' \<and>
         wrapper_ran ctx cb E (world s') \<and> held (world s') = held (world s)"
  using assms
proof (induction k arbitrary: s waited)
  case 0
  let ?s1 = "foreign_iteration (oneshot_env sched) (Some ctx) (log (Cond True) s)"
  let ?w1 = "(world s)\<lparr>held := (held (world s))(ctx := held (world s) ctx - 1)\<rparr>"
  have "wrapper_pending ctx cb E ?w1" "held ?w1 ctx = 0" "ctx \<in> set (sched (polls ?w1))"
    using 0 by simp_all
  then have "wrapper_ran ctx cb E (aio_poll (oneshot_env sched) main_ctx True ?w1)"
    using 0(2) by (intro aio_poll_scheduled)
  then have ran: "wrapper_ran ctx cb E (world ?s1)"
    by (simp add: world_foreign_iteration Let_def)
  then have "done_flag (world ?s1)"
    by (rule ran_done)
  with pending_not_done [OF 0(1)]
  have "foreign_wait_loop (oneshot_env sched) not_done (Some ctx) (Suc (Suc (0 + m))) waited s =
      Returned True (log (Cond False) ?s1)"
    by (simp add: eval_cond_not_done)
  moreover have "held (world (log (Cond False) ?s1)) = held (world s)"
    using 0(3) by (simp add: world_foreign_iteration Let_def fun_eq_iff)
  ultimately show ?case
    using ran by simp
next
  case (Suc k)
  let ?s1 = "foreign_iteration (oneshot_env sched) (Some ctx) (log (Cond True) s)"
  let ?w1 = "(world s)\<lparr>held := (held (world s))(ctx := held (world s) ctx - 1)\<rparr>"
  have step: "foreign_wait_loop (oneshot_env sched) not_done (Some ctx) (Suc (Suc (Suc k + m))) waited s =
      foreign_wait_loop (oneshot_env sched) not_done (Some ctx) (Suc (Suc (k + m))) True ?s1"
    using pending_not_done [OF Suc.prems(1)] by (simp add: eval_cond_not_done)
  have held: "held (world ?s1) = held (world s)"
    using Suc.prems(3) by (simp add: world_foreign_iteration Let_def fun_eq_iff)
  have polls: "polls (world ?s1) = Suc (polls (world s))"
    by (simp add: world_foreign_iteration Let_def)
  have "wrapper_pending ctx cb E ?w1 \<or> wrapper_ran ctx cb E ?w1"
    using Suc.prems(1) by simp
  from aio_poll_progress [OF this, of sched main_ctx True]
  have "wrapper_pending ctx cb E (world ?s1) \<or> wrapper_ran ctx cb E (world ?s1)"
    by (simp add: world_foreign_iteration Let_def)
  then show ?case
  proof
    assume p: "wrapper_pending ctx cb E (world ?s1)"
    have "ctx \<in> set (sched (polls (world ?s1) + k))"
      using Suc.prems(4) polls by simp
    from Suc.IH [OF p Suc.prems(2) _ this, of True] held Suc.prems(3) step show ?thesis
      by simp
  next
    assume r: "wrapper_ran ctx cb E (world ?s1)"
    then have "done_flag (world ?s1)"
      by (rule ran_done)
    then have "foreign_wait_loop (oneshot_env sched) not_done (Some ctx) (Suc (Suc (k + m))) True ?s1 =
        Returned True (log (Cond False) ?s1)"
      by (simp add: eval_cond_not_done)
    with step r held show ?thesis
      by simp
  qed
qed

lemma scheduled_pending:
  assumes "no_wait_bh w"
  shows "wrapper_pending ctx cb (executed w)
           (aio_bh_schedule_oneshot ctx (WaitBH cb) (w\<lparr>done_flag := False\<rparr>))"
  using assms by (simp add: wrapper_pending_def no_wait_bh_def aio_bh_schedule_oneshot_def)

lemma held_scheduled [simp]:
  "held (aio_bh_schedule_oneshot ctx b (w\<lparr>done_flag := x\<rparr>)) = held w"
  by (simp add: aio_bh_schedule_oneshot_def)

lemma oneshot_unfold:
  "aio_wait_bh_oneshot sched n ctx cb s =
     (let s0 = s\<lparr>world := aio_bh_schedule_oneshot ctx (WaitBH cb) ((world s)\<lparr>done_flag := False\<rparr>)\<rparr>
      in if ctx = main_ctx
         then home_thread_path (oneshot_env sched) not_done ctx n False s0
         else (case foreign_wait_loop (oneshot_env sched) not_done (Some ctx) n False
                      (atomic_inc (log (Assert True) s0)) of
                 Returned r s' \<Rightarrow> Returned r (atomic_dec s')
               | Aborted s' \<Rightarrow> Aborted s'
               | Waiting s' \<Rightarrow> Waiting s'))"
  by (simp add: aio_wait_bh_oneshot_def AIO_WAIT_WHILE_def foreign_thread_path_def Let_def)

lemma oneshot_safe:
  assumes "no_wait_bh (world s)"
  shows "case aio_wait_bh_oneshot sched n ctx cb s of
           Returned r s' \<Rightarrow> wrapper_ran ctx cb (executed (world s)) (world s')
         | Waiting s' \<Rightarrow> wrapper_pending ctx cb (executed (world s)) (world s') \<or>
             wrapper_ran ctx cb (executed (world s)) (world s')
         | Aborted s' \<Rightarrow> False"
proof -
  let ?E = "executed (world s)"
  let ?s0 = "s\<lparr>world := aio_bh_schedule_oneshot ctx (WaitBH cb) ((world s)\<lparr>done_flag := False\<rparr>)\<rparr>"
  have p: "wrapper_pending ctx cb ?E (world ?s0)"
    using scheduled_pending [OF assms] by simp
  show ?thesis
  proof (cases "ctx = main_ctx")
    case True
    from home_oneshot_safe [of ctx cb ?E ?s0 sched ctx n False] p True show ?thesis
      by (simp add: oneshot_unfold)
  next
    case False
    let ?s1 = "atomic_inc (log (Assert True) ?s0)"
    have "wrapper_pending ctx cb ?E (world ?s1)"
      using p by simp
    with foreign_oneshot_safe [of ctx cb ?E ?s1 sched ctx n False] False show ?thesis
      by (simp add: oneshot_unfold split: outcome.splits)
  qed
qed

lemma oneshot_returns:
  assumes "no_wait_bh (world s)"
    and "ctx = main_ctx \<or> held (world s) ctx = 1 \<and> ctx \<in> set (sched (polls (world s) + k))"
  shows "\<exists>s'. aio_wait_bh_oneshot sched (Suc (Suc (k + m))) ctx cb s = Returned True s' \<and>
           wrapper_ran ctx cb (executed (world s)) (world s') \<and>
           held (world s') = held (world s)"
proof -
  let ?E = "executed (world s)"
  let ?s0 = "s\<lparr>world := aio_bh_schedule_oneshot ctx (WaitBH cb) ((world s)\<lparr>done_flag := False\<rparr>)\<rparr>"
  have p: "wrapper_pending ctx cb ?E (world ?s0)"
    using scheduled_pending [OF assms(1)] by simp
  show ?thesis
  proof (cases "ctx = main_ctx")
    case True
    from home_oneshot_returns [OF p, of sched "k + m" False] True show ?thesis
      by (simp add: oneshot_unfold)
  next
    case False
    let ?s1 = "atomic_inc (log (Assert True) ?s0)"
    have "wrapper_pending ctx cb ?E (world ?s1)" "held (world ?s1) ctx = 1"
      "ctx \<in> set (sched (polls (world ?s1) + k))"
      using p assms(2) False by (simp_all add: aio_bh_schedule_oneshot_def)
    from foreign_oneshot_returns [where ctx = ctx and cb = cb and E = ?E and s = ?s1 and sched = sched
        and k = k and m = m and waited = False, OF this(1) False this(2,3)]
    obtain s' where "foreign_wait_loop (oneshot_env sched) not_done (Some ctx) (Suc (Suc (k + m))) False ?s1 =
        Returned True s'" "wrapper_ran ctx cb ?E (world s')" "held (world s') = held (world ?s1)"
      by blast
    with False have "aio_wait_bh_oneshot sched (Suc (Suc (k + m))) ctx cb s = Returned True (atomic_dec s') \<and>
        wrapper_ran ctx cb ?E (world (atomic_dec s')) \<and>
        held (world (atomic_dec s')) = held (world s)"
      by (simp add: oneshot_unfold)
    then show ?thesis by blast
  qed
qed

lemma oneshot_calls_safe:
  assumes "no_wait_bh (world s)" and "oneshot_calls sched n ctx cbs s = Returned r s'"
  shows "executed (world s') = executed (world s) @ map (Pair ctx) cbs \<and> no_wait_bh (world s')"
  using assms
proof (induction cbs arbitrary: s)
  case Nil
  then show ?case by simp
next
  case (Cons cb cbs)
  from Cons.prems(2) obtain r1 s1 where
    one: "aio_wait_bh_oneshot sched n ctx cb s = Returned r1 s1"
    and rest: "oneshot_calls sched n ctx cbs s1 = Returned r s'"
    by (auto split: outcome.splits)
  from oneshot_safe [OF Cons.prems(1), where sched = sched and n = n and ctx = ctx and cb = cb] one
  have ran: "wrapper_ran ctx cb (executed (world s)) (world s1)"
    by simp
  then have "no_wait_bh (world s1)" "executed (world s1) = executed (world s) @ [(ctx, cb)]"
    by (simp_all add: wrapper_ran_def)
  with Cons.IH [OF this(1) rest] show ?case
    by simp
qed

lemma oneshot_returns_bounded:
  assumes "no_wait_bh (world s)"
    and "ctx = main_ctx \<or> held (world s) ctx = 1 \<and> (\<forall>i. \<exists>k\<le>K. ctx \<in> set (sched (i + k)))"
  shows "\<exists>s'. aio_wait_bh_oneshot sched (Suc (Suc (K + m))) ctx cb s = Returned True s' \<and>
           wrapper_ran ctx cb (executed (world s)) (world s') \<and>
           held (world s') = held (world s)"
proof -
  have "\<exists>k\<le>K. ctx = main_ctx \<or>
      held (world s) ctx = 1 \<and> ctx \<in> set (sched (polls (world s) + k))"
  proof (cases "ctx = main_ctx")
    case True
    then have "0 \<le> K \<and> (ctx = main_ctx \<or>
        held (world s) ctx = 1 \<and> ctx \<in> set (sched (polls (world s) + 0)))"
      by simp
    then show ?thesis ..
  next
    case False
    with assms(2) have held: "held (world s) ctx = 1"
      and all: "\<forall>i. \<exists>k\<le>K. ctx \<in> set (sched (i + k))"
      by simp_all
    from all obtain k where "k \<le> K" "ctx \<in> set (sched (polls (world s) + k))"
      by (elim allE [of _ "polls (world s)"] exE conjE)
    with held have "k \<le> K \<and> (ctx = main_ctx \<or>
        held (world s) ctx = 1 \<and> ctx \<in> set (sched (polls (world s) + k)))"
      by simp
    then show ?thesis ..
  qed
  then obtain k where k: "k \<le> K"
    "ctx = main_ctx \<or> held (world s) ctx = 1 \<and> ctx \<in> set (sched (polls (world s) + k))"
    by (elim exE conjE)
  from k(1) have eq: "k + (K - k + m) = K + m"
    by simp
  from oneshot_returns [where s = s and ctx = ctx and sched = sched and k = k
      and m = "K - k + m" and cb = cb, OF assms(1) k(2)] show ?thesis
    unfolding eq .
qed

lemma oneshot_calls_return:
  assumes "no_wait_bh (world s)"
    and "ctx = main_ctx \<or> held (world s) ctx = 1 \<and> (\<forall>i. \<exists>k\<le>K. ctx \<in> set (sched (i + k)))"
  shows "\<exists>s'. oneshot_calls sched (Suc (Suc (K + m))) ctx cbs s = Returned False s'"
  using assms
proof (induction cbs arbitrary: s)
  case Nil
  then show ?case by simp
next
  case (Cons cb cbs)
  from oneshot_returns_bounded [OF Cons.prems, where m = m and cb = cb]
  obtain s1 where one: "aio_wait_bh_oneshot sched (Suc (Suc (K + m))) ctx cb s = Returned True s1"
    and ran: "wrapper_ran ctx cb (executed (world s)) (world s1)"
    and held: "held (world s1) = held (world s)"
    by (elim exE conjE)
  from ran have "no_wait_bh (world s1)"
    by (simp add: wrapper_ran_def)
  moreover from held Cons.prems(2)
  have "ctx = main_ctx \<or> held (world s1) ctx = 1 \<and> (\<forall>i. \<exists>k\<le>K. ctx \<in> set (sched (i + k)))"
    by simp
  ultimately have "\<exists>s'. oneshot_calls sched (Suc (Suc (K + m))) ctx cbs s1 = Returned False s'"
    by (rule Cons.IH)
  then obtain s' where "oneshot_calls sched (Suc (Suc (K + m))) ctx cbs s1 = Returned False s'" ..
  with one show ?case
    by simp
qed

text \<open>
  Claim C8. The main loop thread calls \<^verbatim>\<open>aio_wait_bh_oneshot(ctx, cb, opaque)\<close> while no
  wrapper of an earlier call is pending. Whatever the schedule of the IOThreads: when the
  call returns, \<open>cb\<close> has run exactly once, on the thread of \<open>ctx\<close>, and no wrapper is
  left; as long as the call waits, \<open>cb\<close> has not run or has run once; the call does not
  abort. Calls made back to back for one context run their callbacks once each, in the
  order of the calls. The calls do return when \<open>ctx\<close> is the main context, or when the
  caller holds \<open>ctx\<close> exactly once and the thread of \<open>ctx\<close> runs at least once in any
  \<open>K + 1\<close> consecutive polls.
\<close>

theorem oneshot_runs_callback_once:
  assumes "no_wait_bh (world s)"
  shows "let E = executed (world s);
             fair = (ctx = main_ctx \<or>
                     held (world s) ctx = 1 \<and> (\<forall>i. \<exists>k\<le>K. ctx \<in> set (sched (i + k))))
         in (\<forall>r s'. aio_wait_bh_oneshot sched n ctx cb s = Returned r s' \<longrightarrow>
               executed (world s') = E @ [(ctx, cb)] \<and> done_flag (world s') \<and>
               no_wait_bh (world s')) \<and>
            (\<forall>s'. aio_wait_bh_oneshot sched n ctx cb s = Waiting s' \<longrightarrow>
               executed (world s') = E \<and> \<not> done_flag (world s') \<or>
               executed (world s') = E @ [(ctx, cb)]) \<and>
            (\<forall>s'. aio_wait_bh_oneshot sched n ctx cb s \<noteq> Aborted s') \<and>
            (fair \<and> K + 2 \<le> n \<longrightarrow>
               (\<exists>s'. aio_wait_bh_oneshot sched n ctx cb s = Returned True s')) \<and>
            (\<forall>r s'. oneshot_calls sched n ctx cbs s = Returned r s' \<longrightarrow>
               executed (world s') = E @ map (Pair ctx) cbs) \<and>
            (fair \<and> K + 2 \<le> n \<longrightarrow>
               (\<exists>s'. oneshot_calls sched n ctx cbs s = Returned False s'))"
proof -
  let ?E = "executed (world s)"
  let ?fair = "ctx = main_ctx \<or>
     held (world s) ctx = 1 \<and> (\<forall>i. \<exists>k\<le>K. ctx \<in> set (sched (i + k)))"
  let ?out = "aio_wait_bh_oneshot sched n ctx cb s"
  note safe = oneshot_safe [OF assms, where sched = sched and n = n and ctx = ctx and cb = cb]
  have ret: "executed (world s') = ?E @ [(ctx, cb)] \<and> done_flag (world s') \<and> no_wait_bh (world s')"
    if "?out = Returned r s'" for r s'
    using safe that by (simp add: wrapper_ran_def)
  have wait: "executed (world s') = ?E \<and> \<not> done_flag (world s') \<or>
      executed (world s') = ?E @ [(ctx, cb)]"
    if "?out = Waiting s'" for s'
    using safe that by (auto simp: wrapper_ran_def wrapper_pending_def)
  have noabort: "?out \<noteq> Aborted s'" for s'
    using safe by auto
  have fuel: "\<exists>m. n = Suc (Suc (K + m))" if "K + 2 \<le> n"
    using that by (intro exI [of _ "n - (K + 2)"]) simp
  have live: "\<exists>s'. ?out = Returned True s'" if "?fair" "K + 2 \<le> n"
  proof -
    from fuel [OF that(2)] obtain m where "n = Suc (Suc (K + m))" ..
    with oneshot_returns_bounded [OF assms that(1), where m = m and cb = cb] show ?thesis
      by blast
  qed
  have calls: "executed (world s') = ?E @ map (Pair ctx) cbs"
    if "oneshot_calls sched n ctx cbs s = Returned r s'" for r s'
    using oneshot_calls_safe [OF assms that] by simp
  have calls_live: "\<exists>s'. oneshot_calls sched n ctx cbs s = Returned False s'"
    if "?fair" "K + 2 \<le> n"
  proof -
    from fuel [OF that(2)] obtain m where "n = Suc (Suc (K + m))" ..
    with oneshot_calls_return [OF assms that(1), where m = m and cbs = cbs] show ?thesis
      by blast
  qed
  have c1: "\<forall>r s'. ?out = Returned r s' \<longrightarrow>
      executed (world s') = ?E @ [(ctx, cb)] \<and> done_flag (world s') \<and> no_wait_bh (world s')"
    using ret by (intro allI impI)
  have c2: "\<forall>s'. ?out = Waiting s' \<longrightarrow>
      executed (world s') = ?E \<and> \<not> done_flag (world s') \<or> executed (world s') = ?E @ [(ctx, cb)]"
    using wait by (intro allI impI)
  have c3: "\<forall>s'. ?out \<noteq> Aborted s'"
    using noabort by (intro allI)
  have c4: "?fair \<and> K + 2 \<le> n \<longrightarrow> (\<exists>s'. ?out = Returned True s')"
    using live by (intro impI) (elim conjE)
  have c5: "\<forall>r s'. oneshot_calls sched n ctx cbs s = Returned r s' \<longrightarrow>
      executed (world s') = ?E @ map (Pair ctx) cbs"
    using calls by (intro allI impI)
  have c6: "?fair \<and> K + 2 \<le> n \<longrightarrow> (\<exists>s'. oneshot_calls sched n ctx cbs s = Returned False s')"
    using calls_live by (intro impI) (elim conjE)
  show ?thesis
    unfolding Let_def by (rule conjI [OF c1 conjI [OF c2 conjI [OF c3 conjI [OF c4 conjI [OF c5 c6]]]]])
qed

text \<open>
  The main loop thread holds context 4 once; its IOThread runs in every third poll.
\<close>

theorem oneshot_runs_callback_once_witness:
  "no_wait_bh (world idle_machine) \<and>
   held (world idle_machine) 4 = 1 \<and>
   (\<exists>s'. aio_wait_bh_oneshot every_third_poll 4 4 77 idle_machine = Returned True s' \<and>
      executed (world s') = [(4, 77)]) \<and>
   (\<exists>s'. oneshot_calls every_third_poll 4 4 [10, 11, 12] idle_machine = Returned False s' \<and>
      executed (world s') = [(4, 10), (4, 11), (4, 12)])"
proof -
  have h: "no_wait_bh (world idle_machine)"
    by (simp add: no_wait_bh_def idle_machine_def idle_loops_def)
  have held: "held (world idle_machine) 4 = 1"
    by (simp add: idle_machine_def idle_loops_def)
  have E: "executed (world idle_machine) = []"
    by (simp add: idle_machine_def idle_loops_def)
  have third: "\<forall>i. \<exists>k\<le>2. 4 \<in> set (every_third_poll (i + k))"
  proof
    fix i :: nat
    have "\<exists>k\<le>2. (i + k) mod 3 = 2"
      by presburger
    then obtain k where "k \<le> 2" "(i + k) mod 3 = 2"
      by blast
    then have "k \<le> 2 \<and> 4 \<in> set (every_third_poll (i + k))"
      by (simp add: every_third_poll_def)
    then show "\<exists>k\<le>2. 4 \<in> set (every_third_poll (i + k))" ..
  qed
  have fair: "4 = main_ctx \<or>
      held (world idle_machine) 4 = 1 \<and> (\<forall>i. \<exists>k\<le>2. 4 \<in> set (every_third_poll (i + k)))"
    using held third by blast
  have fuel: "(2::nat) + 2 \<le> 4"
    by simp
  note T = oneshot_runs_callback_once [OF h, where ctx = 4 and sched = every_third_poll
      and K = 2 and n = 4 and cb = 77 and cbs = "[10, 11, 12]", unfolded Let_def E]
  note ret = T [THEN conjunct1]
  note live = T [THEN conjunct2, THEN conjunct2, THEN conjunct2, THEN conjunct1]
  note calls = T [THEN conjunct2, THEN conjunct2, THEN conjunct2, THEN conjunct2, THEN conjunct1]
  note calls_live = T [THEN conjunct2, THEN conjunct2, THEN conjunct2, THEN conjunct2,
      THEN conjunct2]
  from live [rule_format, OF conjI [OF fair fuel]] obtain s1 where
    s1: "aio_wait_bh_oneshot every_third_poll 4 4 77 idle_machine = Returned True s1" ..
  from ret [rule_format, OF s1] have "executed (world s1) = [(4, 77)]"
    by simp
  with s1 have one: "\<exists>s'. aio_wait_bh_oneshot every_third_poll 4 4 77 idle_machine = Returned True s' \<and>
      executed (world s') = [(4, 77)]"
    by blast
  from calls_live [rule_format, OF conjI [OF fair fuel]] obtain s2 where
    s2: "oneshot_calls every_third_poll 4 4 [10, 11, 12] idle_machine = Returned False s2" ..
  from calls [rule_format, OF s2] have "executed (world s2) = [(4, 10), (4, 11), (4, 12)]"
    by simp
  with s2 have many: "\<exists>s'. oneshot_calls every_third_poll 4 4 [10, 11, 12] idle_machine =
      Returned False s' \<and> executed (world s') = [(4, 10), (4, 11), (4, 12)]"
    by blast
  show ?thesis
    by (rule conjI [OF h conjI [OF held conjI [OF one many]]])
qed

end
